theory Spec2Isabelle
  imports Complex_Main "HOL-Library.Sublist"
begin

section \<open>Token-bucket rate limiter (rateLimiter.js)\<close>

text \<open>
  The limiter computes with JavaScript Numbers (IEEE 754 binary64). Their arithmetic is
  a parameter of the model: a carrier type \<open>'f\<close> for the Numbers and the operations that
  the source applies to them. With the operations of binary64 for these fields, the
  definitions below compute what the source computes, rounding, infinities and
  \<^verbatim>\<open>NaN\<close> included.
  \<^item> \<open>js_int\<close>: the Number of an integer literal or of a reading of \<^verbatim>\<open>Date.now()\<close>;
  \<^item> \<open>js_add\<close>, \<open>js_sub\<close>, \<open>js_mul\<close>, \<open>js_div\<close>: \<^verbatim>\<open>+\<close>, \<^verbatim>\<open>-\<close>, \<^verbatim>\<open>*\<close> and \<^verbatim>\<open>/\<close>;
  \<^item> \<open>js_min\<close>: \<^verbatim>\<open>Math.min\<close>; \<open>js_floor\<close>: \<^verbatim>\<open>Math.floor\<close>; \<open>js_ge\<close>: \<^verbatim>\<open>>=\<close>;
  \<^item> \<open>js_String\<close>: \<^verbatim>\<open>String(n)\<close>;
  \<^item> \<open>js_finite\<close>: \<^verbatim>\<open>Number.isFinite\<close>, which the source does not call; it serves to
    state conditions on the inputs.
\<close>

record 'f arith =
  js_int :: "int \<Rightarrow> 'f"
  js_add :: "'f \<Rightarrow> 'f \<Rightarrow> 'f"
  js_sub :: "'f \<Rightarrow> 'f \<Rightarrow> 'f"
  js_mul :: "'f \<Rightarrow> 'f \<Rightarrow> 'f"
  js_div :: "'f \<Rightarrow> 'f \<Rightarrow> 'f"
  js_min :: "'f \<Rightarrow> 'f \<Rightarrow> 'f"
  js_floor :: "'f \<Rightarrow> 'f"
  js_ge :: "'f \<Rightarrow> 'f \<Rightarrow> bool"
  js_String :: "'f \<Rightarrow> string"
  js_finite :: "'f \<Rightarrow> bool"

text \<open>
  The class \<^verbatim>\<open>RateLimiter\<close> keeps, per client id, a bucket \<^verbatim>\<open>{ tokens, last }\<close>. The
  reading of \<^verbatim>\<open>Date.now()\<close> is an explicit argument \<open>now\<close>, a Number.
\<close>

record 'f bucket =
  tokens :: 'f
  last_ms :: 'f

record 'f limiter =
  rl_max :: 'f
  rl_refill :: 'f
  buckets :: "string \<rightharpoonup> 'f bucket"
  limited :: nat

record 'f rl_result =
  ok :: bool
  remaining :: 'f

text \<open>The constructor: \<^verbatim>\<open>new RateLimiter({ maxTokens, refillPerSec })\<close>.\<close>

definition new_limiter :: "'f \<Rightarrow> 'f \<Rightarrow> 'f limiter" where
  "new_limiter maxTokens refillPerSec =
     \<lparr>rl_max = maxTokens, rl_refill = refillPerSec, buckets = Map.empty, limited = 0\<rparr>"

text \<open>\<^verbatim>\<open>_refill(bucket, now)\<close>\<close>

definition refill :: "'f arith \<Rightarrow> 'f limiter \<Rightarrow> 'f bucket \<Rightarrow> 'f \<Rightarrow> 'f bucket" where
  "refill A L b now =
     (let elapsed = js_div A (js_sub A now (last_ms b)) (js_int A 1000);
          add = js_mul A elapsed (rl_refill L)
      in b\<lparr>tokens := js_min A (rl_max L) (js_add A (tokens b) add), last_ms := now\<rparr>)"

text \<open>
  \<^verbatim>\<open>tryRemoveToken(id, n = 1)\<close>. The source mutates the bucket object held by the map;
  the model writes the updated bucket back under the same id.
\<close>

definition tryRemoveToken ::
  "'f arith \<Rightarrow> 'f limiter \<Rightarrow> 'f \<Rightarrow> string \<Rightarrow> 'f \<Rightarrow> 'f rl_result \<times> 'f limiter" where
  "tryRemoveToken A L now cid n =
     (let created = (case buckets L cid of
                       None \<Rightarrow> \<lparr>tokens = rl_max L, last_ms = now\<rparr>
                     | Some b \<Rightarrow> b);
          bucket = refill A L created now
      in if js_ge A (tokens bucket) n
         then (let bucket' = bucket\<lparr>tokens := js_sub A (tokens bucket) n\<rparr>
               in (\<lparr>ok = True, remaining = js_floor A (tokens bucket')\<rparr>,
                   L\<lparr>buckets := (buckets L)(cid \<mapsto> bucket')\<rparr>))
         else (\<lparr>ok = False, remaining = js_floor A (tokens bucket)\<rparr>,
               L\<lparr>buckets := (buckets L)(cid \<mapsto> bucket), limited := limited L + 1\<rparr>))"

section \<open>TTL cache with LRU eviction (cache.js)\<close>

text \<open>
  The class \<^verbatim>\<open>TTLCache\<close> holds a \<^verbatim>\<open>Map\<close> from keys to nodes and a doubly linked
  list of the same nodes, \<^verbatim>\<open>head\<close> being the most recently used node and \<^verbatim>\<open>tail\<close>
  the least recently used one. The model keeps the two structures apart, as the source
  does: \<open>cmap\<close> is the \<^verbatim>\<open>Map\<close>, and \<open>lru\<close> is the chain of nodes from \<^verbatim>\<open>head\<close>
  along \<^verbatim>\<open>next\<close> to \<^verbatim>\<open>tail\<close>, each node written as its key \<^verbatim>\<open>node.k\<close>. A node
  carries the stored value and the clock reading at which it expires. Clock readings and
  durations are integers (milliseconds); \<^verbatim>\<open>maxEntries\<close> is an integer.
\<close>

record 'v node =
  value_n :: 'v
  expiresAt :: int

record 'v ttl_cache =
  ttlMs :: int
  maxEntries :: int
  cmap :: "string \<rightharpoonup> 'v node"
  lru :: "string list"
  hits :: nat
  misses :: nat
  stores :: nat
  evictions :: nat

text \<open>\<^verbatim>\<open>new TTLCache({ ttlMs, maxEntries })\<close>\<close>

definition new_cache :: "int \<Rightarrow> int \<Rightarrow> 'v ttl_cache" where
  "new_cache ttl cap =
     \<lparr>ttlMs = ttl, maxEntries = cap, cmap = Map.empty, lru = [],
      hits = 0, misses = 0, stores = 0, evictions = 0\<rparr>"

text \<open>\<^verbatim>\<open>this.map.size\<close>\<close>

definition map_size :: "'v ttl_cache \<Rightarrow> nat" where
  "map_size c = card (dom (cmap c))"

text \<open>\<^verbatim>\<open>_attach(node)\<close>: the node becomes the head of the chain.\<close>

definition attach :: "string \<Rightarrow> 'v ttl_cache \<Rightarrow> 'v ttl_cache" where
  "attach k c = c\<lparr>lru := k # lru c\<rparr>"

text \<open>\<^verbatim>\<open>_detach(node)\<close>: the node is unlinked from the chain; the rest keeps its order.\<close>

definition detach :: "string \<Rightarrow> 'v ttl_cache \<Rightarrow> 'v ttl_cache" where
  "detach k c = c\<lparr>lru := remove1 k (lru c)\<rparr>"

text \<open>\<^verbatim>\<open>_moveToFront(node)\<close>\<close>

definition moveToFront :: "string \<Rightarrow> 'v ttl_cache \<Rightarrow> 'v ttl_cache" where
  "moveToFront k c =
     (if (case lru c of [] \<Rightarrow> False | h # _ \<Rightarrow> h = k) then c
      else attach k (detach k c))"

text \<open>
  \<^verbatim>\<open>_evictIfNeeded()\<close>: while the map holds more than \<^verbatim>\<open>maxEntries\<close> keys and the chain
  has a tail, unlink the tail, delete its key from the map and count an eviction.
\<close>

function evictIfNeeded :: "'v ttl_cache \<Rightarrow> 'v ttl_cache" where
  "evictIfNeeded c =
     (if maxEntries c < int (map_size c) \<and> lru c \<noteq> []
      then (let k = last (lru c);
                c1 = detach k c;
                c2 = c1\<lparr>cmap := (cmap c1)(k := None)\<rparr>
            in evictIfNeeded (c2\<lparr>evictions := evictions c2 + 1\<rparr>))
      else c)"
  by pat_completeness auto
termination
proof (relation "measure (\<lambda>c. length (lru c))")
  show "wf (measure (\<lambda>c::'v ttl_cache. length (lru c)))" by simp
next
  fix c :: "'v ttl_cache" and k c1 c2
  assume a: "maxEntries c < int (map_size c) \<and> lru c \<noteq> []"
    and k: "k = last (lru c)" and c1: "c1 = detach k c"
    and c2: "c2 = c1\<lparr>cmap := (cmap c1)(k := None)\<rparr>"
  from a k have "k \<in> set (lru c)" by simp
  then have "length (remove1 k (lru c)) < length (lru c)"
    by (simp add: length_remove1) (cases "lru c", auto)
  then show "(c2\<lparr>evictions := evictions c2 + 1\<rparr>, c) \<in> measure (\<lambda>c. length (lru c))"
    by (simp add: c1 c2 detach_def)
qed

declare evictIfNeeded.simps [simp del]

text \<open>\<^verbatim>\<open>_isExpired(node)\<close>, with the reading of \<^verbatim>\<open>Date.now()\<close> as an argument.\<close>

definition isExpired :: "'v node \<Rightarrow> int \<Rightarrow> bool" where
  "isExpired n now = (expiresAt n \<le> now)"

text \<open>
  \<^verbatim>\<open>get(k)\<close>: the result \<^verbatim>\<open>null\<close> is \<open>None\<close>. The stored values are response
  objects, never \<^verbatim>\<open>null\<close>, so a hit is always \<open>Some\<close>.
\<close>

definition get_c :: "'v ttl_cache \<Rightarrow> string \<Rightarrow> int \<Rightarrow> 'v option \<times> 'v ttl_cache" where
  "get_c c k now =
     (case cmap c k of
        None \<Rightarrow> (None, c\<lparr>misses := misses c + 1\<rparr>)
      | Some n \<Rightarrow>
          if isExpired n now
          then (let c1 = detach k c;
                    c2 = c1\<lparr>cmap := (cmap c1)(k := None)\<rparr>
                in (None, c2\<lparr>misses := misses c2 + 1\<rparr>))
          else (let c1 = moveToFront k c
                in (Some (value_n n), c1\<lparr>hits := hits c1 + 1\<rparr>)))"

text \<open>
  \<^verbatim>\<open>set(k, value, ttlOverrideMs)\<close>: the override counts when it is a number
  (\<open>Some\<close>), otherwise the configured \<^verbatim>\<open>ttlMs\<close> does.
\<close>

definition set_c :: "'v ttl_cache \<Rightarrow> string \<Rightarrow> 'v \<Rightarrow> int option \<Rightarrow> int \<Rightarrow> 'v ttl_cache" where
  "set_c c k v ttlOverrideMs now =
     (let ttl = (case ttlOverrideMs of Some t \<Rightarrow> t | None \<Rightarrow> ttlMs c);
          c1 = (case cmap c k of
                  Some existing \<Rightarrow>
                    moveToFront k
                      (c\<lparr>cmap := (cmap c)(k \<mapsto> existing\<lparr>value_n := v, expiresAt := now + ttl\<rparr>)\<rparr>)
                | None \<Rightarrow>
                    evictIfNeeded
                      (attach k
                        (c\<lparr>cmap := (cmap c)(k \<mapsto> \<lparr>value_n = v, expiresAt = now + ttl\<rparr>)\<rparr>)))
      in c1\<lparr>stores := stores c1 + 1\<rparr>)"

text \<open>\<^verbatim>\<open>del(k)\<close> and \<^verbatim>\<open>clear()\<close>\<close>

definition del_c :: "'v ttl_cache \<Rightarrow> string \<Rightarrow> bool \<times> 'v ttl_cache" where
  "del_c c k =
     (case cmap c k of
        None \<Rightarrow> (False, c)
      | Some n \<Rightarrow> (let c1 = detach k c in (True, c1\<lparr>cmap := (cmap c1)(k := None)\<rparr>)))"

definition clear_c :: "'v ttl_cache \<Rightarrow> 'v ttl_cache" where
  "clear_c c = c\<lparr>cmap := Map.empty, lru := []\<rparr>"

text \<open>
  Histories of \<^verbatim>\<open>get\<close> and \<^verbatim>\<open>set\<close> calls. Every call carries the reading of
  \<^verbatim>\<open>Date.now()\<close> it is made at.
\<close>

datatype 'v cache_op =
  OpGet string int
| OpSet string 'v "int option" int

fun step_c :: "'v ttl_cache \<Rightarrow> 'v cache_op \<Rightarrow> 'v ttl_cache" where
  "step_c c (OpGet k now) = snd (get_c c k now)"
| "step_c c (OpSet k v ttl now) = set_c c k v ttl now"

fun run_c :: "'v ttl_cache \<Rightarrow> 'v cache_op list \<Rightarrow> 'v ttl_cache" where
  "run_c c [] = c"
| "run_c c (x # xs) = run_c (step_c c x) xs"

text \<open>
  What a call does to the recency order: a \<^verbatim>\<open>set\<close> and a \<^verbatim>\<open>get\<close> that hits touch
  their key; a \<^verbatim>\<open>get\<close> that finds an expired entry purges it; a \<^verbatim>\<open>get\<close> of a key
  without an entry changes nothing but the miss counter.
\<close>

datatype effect = Touched string | Purged string | Absent string

fun effect_of :: "'v ttl_cache \<Rightarrow> 'v cache_op \<Rightarrow> effect" where
  "effect_of c (OpSet k v ttl now) = Touched k"
| "effect_of c (OpGet k now) =
     (case cmap c k of
        None \<Rightarrow> Absent k
      | Some n \<Rightarrow> if isExpired n now then Purged k else Touched k)"

fun effects :: "'v ttl_cache \<Rightarrow> 'v cache_op list \<Rightarrow> effect list" where
  "effects c [] = []"
| "effects c (x # xs) = effect_of c x # effects (step_c c x) xs"

fun touched :: "effect list \<Rightarrow> string list" where
  "touched [] = []"
| "touched (Touched k # es) = k # touched es"
| "touched (e # es) = touched es"

fun no_purge :: "effect list \<Rightarrow> bool" where
  "no_purge [] = True"
| "no_purge (Purged k # es) = False"
| "no_purge (e # es) = no_purge es"

text \<open>A key is logically present at a clock reading when it has an entry that has not expired.\<close>

definition present :: "'v ttl_cache \<Rightarrow> string \<Rightarrow> int \<Rightarrow> bool" where
  "present c k now = (case cmap c k of None \<Rightarrow> False | Some n \<Rightarrow> \<not> isExpired n now)"

text \<open>The map and the chain hold the same keys, each once.\<close>

definition consistent :: "'v ttl_cache \<Rightarrow> bool" where
  "consistent c = (distinct (lru c) \<and> set (lru c) = dom (cmap c))"

section \<open>Helpers of the server (utils.js and server.js)\<close>

text \<open>
  Strings. Node decodes the bytes of a header value as Latin-1, so a header value is a
  string of code units below 256: it is modelled as the list of these code units, one
  \<^typ>\<open>char\<close> each. Every other string (the body text, a string inside parsed JSON, a
  value from the environment, a cache key) is modelled as the list of the bytes of its
  UTF-8 encoding. Methods, paths, query strings and digests are ASCII, where the two
  agree. \<open>utf8_of_latin1\<close> turns the first representation into the second.

  Three library functions are parameters of the model: the hexadecimal SHA-256 digest of
  \<^verbatim>\<open>node:crypto\<close> (of the bytes it is given), \<^verbatim>\<open>JSON.parse\<close> (\<open>None\<close> when it
  throws), and the decoding \<^verbatim>\<open>Buffer.toString('utf8')\<close> of the received body bytes,
  which replaces every ill-formed sequence by U+FFFD (its result written in UTF-8 again).
\<close>

datatype json =
  JNull
| JBool bool
| JNumber real
| JString string
| JArray "json list"
| JObject "(string \<times> json) list"

record extern =
  sha256hex :: "string \<Rightarrow> string"
  JSON_parse :: "string \<Rightarrow> json option"
  toString_utf8 :: "string \<Rightarrow> string"

definition utf8_of_latin1 :: "string \<Rightarrow> string" where
  "utf8_of_latin1 s =
     concat (map (\<lambda>c. let n = (of_char c :: nat)
                      in if n < 128 then [c]
                         else [char_of (192 + n div 64), char_of (128 + n mod 64)]) s)"

text \<open>JavaScript truthiness of a parsed JSON value.\<close>

fun truthy :: "json \<Rightarrow> bool" where
  "truthy JNull = False"
| "truthy (JBool b) = b"
| "truthy (JNumber x) = (x \<noteq> 0)"
| "truthy (JString s) = (s \<noteq> [])"
| "truthy (JArray xs) = True"
| "truthy (JObject kvs) = True"

text \<open>
  \<^verbatim>\<open>bodyObj.stream\<close>: the member named \<^verbatim>\<open>stream\<close> of an object, \<^verbatim>\<open>undefined\<close>
  (\<open>None\<close>) elsewhere. Of members with the same name \<^verbatim>\<open>JSON.parse\<close> keeps the last.
\<close>

fun property :: "json \<Rightarrow> string \<Rightarrow> json option" where
  "property (JObject kvs) name = map_of (rev kvs) name"
| "property j name = None"

fun is_object :: "json \<Rightarrow> bool" where
  "is_object (JObject kvs) = True"
| "is_object (JArray xs) = True"
| "is_object JNull = True"
| "is_object j = False"

text \<open>\<^verbatim>\<open>isLikelyStream(bodyObj)\<close>; \<^verbatim>\<open>typeof null\<close> is \<^verbatim>\<open>'object'\<close>, and \<^verbatim>\<open>null\<close> is falsy.\<close>

definition isLikelyStream :: "json \<Rightarrow> bool" where
  "isLikelyStream bodyObj =
     (if truthy bodyObj \<and> is_object bodyObj
      then (if property bodyObj ''stream'' = Some (JBool True) then True else False)
      else False)"

text \<open>\<^verbatim>\<open>safeJsonParse(text)\<close>: \<^verbatim>\<open>null\<close> when \<^verbatim>\<open>JSON.parse\<close> throws.\<close>

definition safeJsonParse :: "extern \<Rightarrow> string \<Rightarrow> json" where
  "safeJsonParse X text = (case JSON_parse X text of None \<Rightarrow> JNull | Some j \<Rightarrow> j)"

text \<open>
  \<^verbatim>\<open>toLowerCase\<close> on a string of code units below 256: the letters A to Z and the
  capital letters of Latin-1 (U+00C0 to U+00DE without the multiplication sign U+00D7)
  move up by 32; every other code unit stays.
\<close>

definition toLowerCase :: "string \<Rightarrow> string" where
  "toLowerCase s =
     map (\<lambda>c. let n = (of_char c :: nat)
               in if (65 \<le> n \<and> n \<le> 90) \<or> (192 \<le> n \<and> n \<le> 222 \<and> n \<noteq> 215)
                  then char_of (n + 32) else c) s"

text \<open>\<^verbatim>\<open>parseBoolean(s, fallback = false)\<close>; an absent header is \<^verbatim>\<open>undefined\<close>.\<close>

definition parseBoolean :: "string option \<Rightarrow> bool" where
  "parseBoolean s =
     (case s of
        None \<Rightarrow> False
      | Some v \<Rightarrow> toLowerCase v \<in> set [''1'', ''true'', ''yes'', ''on''])"

text \<open>
  \<^verbatim>\<open>hashBody(body)\<close> and \<^verbatim>\<open>hashString(s)\<close>. Both digest the UTF-8 encoding of the
  string they are given, which is the argument here.
\<close>

definition hashBody :: "extern \<Rightarrow> string \<Rightarrow> string" where
  "hashBody X body = sha256hex X body"

definition hashString :: "extern \<Rightarrow> string \<Rightarrow> string" where
  "hashString X s = take 16 (sha256hex X s)"

text \<open>
  A request as the handler reads it: \<^verbatim>\<open>req.method\<close>, \<^verbatim>\<open>url.pathname\<close>,
  \<^verbatim>\<open>url.search\<close>, \<^verbatim>\<open>req.headers\<close> (names in lower case), the bytes of the body
  as they arrive, and \<^verbatim>\<open>req.socket.remoteAddress\<close>.
\<close>

record request =
  req_method :: string
  pathname :: string
  search :: string
  headers :: "(string \<times> string) list"
  body_bytes :: string
  remoteAddress :: "string option"

text \<open>\<^verbatim>\<open>readBody(req)\<close>: \<^verbatim>\<open>Buffer.concat(chunks).toString('utf8')\<close>, the text \<^verbatim>\<open>rawBody\<close>.\<close>

definition readBody :: "extern \<Rightarrow> request \<Rightarrow> string" where
  "readBody X req = toString_utf8 X (body_bytes req)"

definition header :: "request \<Rightarrow> string \<Rightarrow> string option" where
  "header req name = map_of (headers req) name"

text \<open>\<^verbatim>\<open>req.headers[name] || ''\<close>\<close>

definition header_or_empty :: "request \<Rightarrow> string \<Rightarrow> string" where
  "header_or_empty req name = (case header req name of None \<Rightarrow> [] | Some v \<Rightarrow> v)"

text \<open>
  \<^verbatim>\<open>trim()\<close> on a string of code units below 256. The white space and line
  terminators of JavaScript in that range are U+0009 to U+000D, U+0020 and U+00A0.
\<close>

definition is_space :: "char \<Rightarrow> bool" where
  "is_space c = ((of_char c :: nat) \<in> set [9, 10, 11, 12, 13, 32, 160])"

definition trim :: "string \<Rightarrow> string" where
  "trim s = rev (dropWhile is_space (rev (dropWhile is_space s)))"

text \<open>\<^verbatim>\<open>pickClientId(req)\<close>\<close>

definition pickClientId :: "extern \<Rightarrow> request \<Rightarrow> string" where
  "pickClientId X req =
     (let auth = header_or_empty req ''authorization''
      in if auth \<noteq> [] then ''key:'' @ take 16 (sha256hex X (utf8_of_latin1 auth))
         else (let fwd = (case header req ''x-forwarded-for'' of
                            None \<Rightarrow> []
                          | Some v \<Rightarrow> trim (takeWhile (\<lambda>c. c \<noteq> CHR '','') v));
                   ip = (if fwd \<noteq> [] then fwd
                         else (case remoteAddress req of
                                 None \<Rightarrow> ''unknown''
                               | Some a \<Rightarrow> if a \<noteq> [] then a else ''unknown''))
               in ''ip:'' @ ip))"

text \<open>The configuration read from the environment, as far as the request path uses it.\<close>

record config =
  UPSTREAM_API_KEY :: string
  CACHE_ONLY_SUCCESS :: bool
  ADMIN_TOKEN :: string

text \<open>
  The cache key of \<^verbatim>\<open>server.js\<close>:
  \<^verbatim>\<open>authHash\<close>, \<^verbatim>\<open>bodyKey\<close> and \<^verbatim>\<open>cacheKey\<close>, as functions of the request method,
  path, query string, \<^verbatim>\<open>authorization\<close> header (empty when absent) and the body text
  \<^verbatim>\<open>rawBody\<close>.
\<close>

definition authHash :: "extern \<Rightarrow> config \<Rightarrow> string \<Rightarrow> string" where
  "authHash X cfg authHeader =
     (if authHeader \<noteq> [] then ''auth:'' @ hashString X (utf8_of_latin1 authHeader)
      else if UPSTREAM_API_KEY cfg \<noteq> [] then ''auth:'' @ hashString X (UPSTREAM_API_KEY cfg)
      else ''auth:none'')"

definition bodyKey :: "extern \<Rightarrow> string \<Rightarrow> string \<Rightarrow> string" where
  "bodyKey X m body = (if m = ''GET'' then [] else '':'' @ hashBody X body)"

definition cacheKey :: "extern \<Rightarrow> config \<Rightarrow> string \<Rightarrow> string \<Rightarrow> string \<Rightarrow> string \<Rightarrow> string \<Rightarrow> string" where
  "cacheKey X cfg m path query authHeader body =
     m @ '':'' @ path @ query @ '':'' @ authHash X cfg authHeader @ bodyKey X m body"

definition request_key :: "extern \<Rightarrow> config \<Rightarrow> request \<Rightarrow> string" where
  "request_key X cfg req =
     cacheKey X cfg (req_method req) (pathname req) (search req)
       (header_or_empty req ''authorization'') (readBody X req)"

section \<open>The request handler (server.js)\<close>

text \<open>
  The process-wide counters, the value stored per cache key, and the shared components.
\<close>

record counters =
  total_requests :: nat
  cache_hits :: nat
  cache_misses :: nat
  cache_bypass :: nat
  cache_stores :: nat
  rate_limited :: nat
  upstream_errors :: nat
  in_flight :: int

record cached =
  c_status :: int
  c_headers :: "(string \<times> string) list"
  c_body :: string

record 'f server =
  cache :: "cached ttl_cache"
  limiter :: "'f limiter"
  stats :: counters

text \<open>
  What the client receives, and how often \<^verbatim>\<open>fetch\<close> was called for the request.
  \<open>set_header\<close> is \<^verbatim>\<open>res.setHeader\<close> (and the assignment to a property of
  \<^verbatim>\<open>respHeaders\<close>): a later value for a name replaces the earlier one.
\<close>

record response =
  status :: int
  out_headers :: "(string \<times> string) list"
  out_body :: string
  upstream_calls :: nat

definition set_header :: "string \<Rightarrow> string \<Rightarrow> (string \<times> string) list \<Rightarrow> (string \<times> string) list" where
  "set_header k v hs =
     (if k \<in> fst ` set hs then map (\<lambda>(a, b). if a = k then (a, v) else (a, b)) hs
      else hs @ [(k, v)])"

definition set_headers :: "(string \<times> string) list \<Rightarrow> (string \<times> string) list \<Rightarrow> (string \<times> string) list" where
  "set_headers new hs = fold (\<lambda>(k, v). set_header k v) new hs"

text \<open>
  What the upstream does with the forwarded request: \<^verbatim>\<open>fetch\<close> rejects (a network
  error, or the abort at \<^verbatim>\<open>UPSTREAM_TIMEOUT_MS\<close>); or \<^verbatim>\<open>fetch\<close> resolves with a status
  and headers and reading the body with \<^verbatim>\<open>arrayBuffer()\<close> rejects; or the response
  arrives whole.
\<close>

datatype upstream =
  FetchRejected
| BodyRejected int "(string \<times> string) list"
| Responded int "(string \<times> string) list" string

text \<open>
  The readings of \<^verbatim>\<open>Date.now()\<close> inside the limiter, the cache lookup and the cache
  store, in milliseconds. The limiter receives its reading as a Number.
\<close>

record clock =
  t_admit :: int
  t_lookup :: int
  t_store :: int

text \<open>\<^verbatim>\<open>done(status, body, headers)\<close> with an object body: JSON text, one request less in flight.\<close>

definition done_json ::
  "int \<Rightarrow> string \<Rightarrow> (string \<times> string) list \<Rightarrow> nat \<Rightarrow> 'f server \<Rightarrow> response \<times> 'f server" where
  "done_json st body hs calls S =
     (\<lparr>status = st,
       out_headers = set_header ''content-type'' ''application/json; charset=utf-8'' hs,
       out_body = body, upstream_calls = calls\<rparr>,
      S\<lparr>stats := (stats S)\<lparr>in_flight := in_flight (stats S) - 1\<rparr>\<rparr>)"

text \<open>The \<^verbatim>\<open>catch\<close> around the whole handler.\<close>

definition internal_error ::
  "(string \<times> string) list \<Rightarrow> nat \<Rightarrow> 'f server \<Rightarrow> response \<times> 'f server" where
  "internal_error hs calls S =
     (\<lparr>status = 500,
       out_headers = set_header ''content-type'' ''application/json; charset=utf-8'' hs,
       out_body = ''{\"error\":\"internal_error\"}'', upstream_calls = calls\<rparr>,
      S\<lparr>stats := (stats S)\<lparr>in_flight := in_flight (stats S) - 1,
                              upstream_errors := upstream_errors (stats S) + 1\<rparr>\<rparr>)"

text \<open>\<^verbatim>\<open>contentType.includes('application/json')\<close>\<close>

definition isJson :: "request \<Rightarrow> bool" where
  "isJson req = sublist ''application/json'' (header_or_empty req ''content-type'')"

text \<open>
  \<^verbatim>\<open>bypass = cacheInvalidate || (parsed && isLikelyStream(parsed))\<close>, with
  \<^verbatim>\<open>parsed = isJson ? safeJsonParse(rawBody) : null\<close>.
\<close>

definition cacheInvalidate :: "request \<Rightarrow> bool" where
  "cacheInvalidate req = parseBoolean (header req ''x-cache-invalidate'')"

definition parsed_body :: "extern \<Rightarrow> request \<Rightarrow> json" where
  "parsed_body X req = (if isJson req then safeJsonParse X (readBody X req) else JNull)"

definition bypass :: "extern \<Rightarrow> request \<Rightarrow> bool" where
  "bypass X req =
     (cacheInvalidate req \<or> (truthy (parsed_body X req) \<and> isLikelyStream (parsed_body X req)))"

text \<open>The headers of the upstream response that are passed on and stored.\<close>

definition respHeaders :: "(string \<times> string) list \<Rightarrow> (string \<times> string) list \<Rightarrow> (string \<times> string) list" where
  "respHeaders up_hs res_hs =
     set_header ''x-cache''
       (case map_of res_hs ''x-cache'' of None \<Rightarrow> ''miss'' | Some v \<Rightarrow> if v = [] then ''miss'' else v)
       (set_headers
          (filter (\<lambda>(k, v). toLowerCase k \<notin> set [''transfer-encoding'', ''connection'']) up_hs) [])"

definition shouldCache :: "extern \<Rightarrow> config \<Rightarrow> request \<Rightarrow> int \<Rightarrow> bool" where
  "shouldCache X cfg req st =
     (let isOk = (200 \<le> st \<and> st < 300)
      in \<not> bypass X req \<and> (\<not> CACHE_ONLY_SUCCESS cfg \<or> isOk) \<and> req_method req = ''POST'')"

text \<open>
  The part of the handler from \<^verbatim>\<open>fetch\<close> on, for a request that was not answered
  from the cache. \<open>hs\<close> are the response headers set so far.
\<close>

definition forward ::
  "extern \<Rightarrow> config \<Rightarrow> clock \<Rightarrow> upstream \<Rightarrow> (string \<times> string) list \<Rightarrow> 'f server \<Rightarrow> request
   \<Rightarrow> response \<times> 'f server" where
  "forward X cfg clk up hs S req =
     (case up of
        FetchRejected \<Rightarrow>
          done_json 502 ''{\"error\":\"bad_gateway\",\"message\":\"Upstream fetch failed\"}'' hs 1
            (S\<lparr>stats := (stats S)\<lparr>upstream_errors := upstream_errors (stats S) + 1\<rparr>\<rparr>)
      | BodyRejected st up_hs \<Rightarrow> internal_error hs 1 S
      | Responded st up_hs body \<Rightarrow>
          (let rh = respHeaders up_hs hs;
               S1 = (if shouldCache X cfg req st
                     then S\<lparr>cache := set_c (cache S) (request_key X cfg req)
                                       \<lparr>c_status = st, c_headers = rh, c_body = body\<rparr>
                                       None (t_store clk),
                            stats := (stats S)\<lparr>cache_stores := cache_stores (stats S) + 1\<rparr>\<rparr>
                     else S)
           in (\<lparr>status = st, out_headers = set_headers rh hs, out_body = body,
                upstream_calls = 1\<rparr>, S1)))"

text \<open>
  The handler for a path under \<^verbatim>\<open>/v1/\<close>, from the rate limit on. The counters
  \<^verbatim>\<open>total_requests\<close> and \<^verbatim>\<open>in_flight\<close> were incremented when the request arrived.
  \<open>A\<close> is the arithmetic of the Numbers of the limiter.
\<close>

definition proxy ::
  "'f arith \<Rightarrow> extern \<Rightarrow> config \<Rightarrow> clock \<Rightarrow> upstream \<Rightarrow> 'f server \<Rightarrow> request
   \<Rightarrow> response \<times> 'f server" where
  "proxy A X cfg clk up S req =
     (let clientId = pickClientId X req;
          now = js_int A (t_admit clk);
          rl = fst (tryRemoveToken A (limiter S) now clientId (js_int A 1));
          S1 = S\<lparr>limiter := snd (tryRemoveToken A (limiter S) now clientId (js_int A 1))\<rparr>;
          hs1 = set_header ''x-rate-remaining'' (js_String A (remaining rl)) []
      in if \<not> ok rl
         then done_json 429 ''{\"error\":\"rate_limited\",\"message\":\"Too Many Requests\"}''
                (set_header ''retry-after'' ''1'' hs1) 0
                (S1\<lparr>stats := (stats S1)\<lparr>rate_limited := rate_limited (stats S1) + 1\<rparr>\<rparr>)
         else if bypass X req
         then forward X cfg clk up
                (set_header ''x-cache''
                   (if cacheInvalidate req then ''bypass-invalidate'' else ''bypass'') hs1)
                (S1\<lparr>stats := (stats S1)\<lparr>cache_bypass := cache_bypass (stats S1) + 1\<rparr>\<rparr>) req
         else (let hit = fst (get_c (cache S1) (request_key X cfg req) (t_lookup clk));
                   S2 = S1\<lparr>cache := snd (get_c (cache S1) (request_key X cfg req) (t_lookup clk))\<rparr>
               in case hit of
                    Some h \<Rightarrow>
                      (\<lparr>status = c_status h,
                        out_headers = set_headers (c_headers h) (set_header ''x-cache'' ''hit'' hs1),
                        out_body = c_body h, upstream_calls = 0\<rparr>,
                       S2\<lparr>stats := (stats S2)\<lparr>cache_hits := cache_hits (stats S2) + 1,
                                                in_flight := in_flight (stats S2) - 1\<rparr>\<rparr>)
                  | None \<Rightarrow>
                      forward X cfg clk up (set_header ''x-cache'' ''miss'' hs1)
                        (S2\<lparr>stats := (stats S2)\<lparr>cache_misses := cache_misses (stats S2) + 1\<rparr>\<rparr>)
                        req))"

text \<open>
  The routes in front of the proxy. \<^verbatim>\<open>/healthz\<close> and \<^verbatim>\<open>/metrics\<close> only report;
  the uptime in the first body, the text of the second and the \<^verbatim>\<open>hint\<close> member of
  the 400 body are not modelled. The purge route reads \<^verbatim>\<open>key\<close> from the JSON body:
  \<^verbatim>\<open>"*"\<close> clears the cache, another string deletes that key. The token of the header
  is compared with \<^verbatim>\<open>ADMIN_TOKEN\<close> as strings, so in one representation.
\<close>

definition admin_purge :: "extern \<Rightarrow> config \<Rightarrow> 'f server \<Rightarrow> request \<Rightarrow> response \<times> 'f server" where
  "admin_purge X cfg S req =
     (case header req ''x-admin-token'' of
        None \<Rightarrow> done_json 401 ''{\"error\":\"unauthorized\"}'' [] 0 S
      | Some token \<Rightarrow>
          if token = [] \<or> utf8_of_latin1 token \<noteq> ADMIN_TOKEN cfg
          then done_json 401 ''{\"error\":\"unauthorized\"}'' [] 0 S
          else (let adminObj = safeJsonParse X (readBody X req)
                in case (if truthy adminObj then property adminObj ''key'' else None) of
                     Some (JString key) \<Rightarrow>
                       if key = ''*''
                       then done_json 200 ''{\"ok\":true,\"cleared\":true}'' [] 0
                              (S\<lparr>cache := clear_c (cache S)\<rparr>)
                       else done_json 200
                              (if fst (del_c (cache S) key) then ''{\"ok\":true,\"deleted\":true}''
                               else ''{\"ok\":true,\"deleted\":false}'') [] 0
                              (S\<lparr>cache := snd (del_c (cache S) key)\<rparr>)
                   | _ \<Rightarrow> done_json 400 ''{\"error\":\"bad_request\"}'' [] 0 S))"

definition handler ::
  "'f arith \<Rightarrow> extern \<Rightarrow> config \<Rightarrow> clock \<Rightarrow> upstream \<Rightarrow> 'f server \<Rightarrow> request
   \<Rightarrow> response \<times> 'f server" where
  "handler A X cfg clk up S0 req =
     (let S = S0\<lparr>stats := (stats S0)\<lparr>total_requests := total_requests (stats S0) + 1,
                                        in_flight := in_flight (stats S0) + 1\<rparr>\<rparr>;
          path = pathname req
      in if path = ''/healthz'' then done_json 200 ''{\"status\":\"ok\"}'' [] 0 S
         else if path = ''/metrics''
         then (\<lparr>status = 200,
                out_headers = [(''content-type'', ''text/plain; charset=utf-8'')],
                out_body = [], upstream_calls = 0\<rparr>,
               S\<lparr>stats := (stats S)\<lparr>in_flight := in_flight (stats S) - 1\<rparr>\<rparr>)
         else if path = ''/admin/cache/purge'' \<and> req_method req = ''POST'' then admin_purge X cfg S req
         else if \<not> prefix ''/v1/'' path then done_json 404
                ''{\"error\":\"not_found\",\"hint\":\"Use /v1/* endpoints or /healthz, /metrics\"}'' [] 0 S
         else proxy A X cfg clk up S req)"

text \<open>The keys of a cache that are logically present at a clock reading, in recency order.\<close>

definition live_keys :: "'v ttl_cache \<Rightarrow> int \<Rightarrow> string list" where
  "live_keys c now = filter (\<lambda>k. present c k now) (lru c)"

section \<open>The specification's reading of the retained keys\<close>

text \<open>
  The specification says that the retained keys are exactly the at most \<open>C\<close> most
  recently touched keys that have not expired. The following definitions follow these
  words, from the history of calls alone: every call touches its key, the keys are
  ordered by their last touch, and a key has not expired when the expiry that its last
  \<^verbatim>\<open>set\<close> gave it is still ahead. The sentence can be read in two ways (the first
  \<open>C\<close> of the unexpired keys, or the unexpired ones of the first \<open>C\<close> keys); both
  are defined.
\<close>

fun op_key :: "'v cache_op \<Rightarrow> string" where
  "op_key (OpGet k now) = k"
| "op_key (OpSet k v ttl now) = k"

fun op_time :: "'v cache_op \<Rightarrow> int" where
  "op_time (OpGet k now) = now"
| "op_time (OpSet k v ttl now) = now"

fun is_get :: "'v cache_op \<Rightarrow> bool" where
  "is_get (OpGet k now) = True"
| "is_get (OpSet k v ttl now) = False"

definition touched_order :: "'v cache_op list \<Rightarrow> string list" where
  "touched_order ops = rev (remdups (map op_key ops))"

fun last_expiry :: "int \<Rightarrow> 'v cache_op list \<Rightarrow> string \<Rightarrow> int option" where
  "last_expiry ttl [] k = None"
| "last_expiry ttl (OpGet k' now # ops) k = last_expiry ttl ops k"
| "last_expiry ttl (OpSet k' v ttlOverrideMs now # ops) k =
     (case last_expiry ttl ops k of
        Some e \<Rightarrow> Some e
      | None \<Rightarrow>
          if k' = k then Some (now + (case ttlOverrideMs of Some t \<Rightarrow> t | None \<Rightarrow> ttl))
          else None)"

definition unexpired :: "int \<Rightarrow> 'v cache_op list \<Rightarrow> int \<Rightarrow> string \<Rightarrow> bool" where
  "unexpired ttl ops now k = (case last_expiry ttl ops k of None \<Rightarrow> False | Some e \<Rightarrow> now < e)"

definition spec_retained_first :: "nat \<Rightarrow> int \<Rightarrow> 'v cache_op list \<Rightarrow> int \<Rightarrow> string list" where
  "spec_retained_first cap ttl ops now = take cap (filter (unexpired ttl ops now) (touched_order ops))"

definition spec_retained_among :: "nat \<Rightarrow> int \<Rightarrow> 'v cache_op list \<Rightarrow> int \<Rightarrow> string list" where
  "spec_retained_among cap ttl ops now = filter (unexpired ttl ops now) (take cap (touched_order ops))"

section \<open>Auxiliary notions for the proofs\<close>

text \<open>
  Laws of order that the proofs about the range of the tokens use. Binary64 with
  rounding to nearest satisfies each of them, for all Numbers, \<^verbatim>\<open>NaN\<close>, the infinities
  and the two zeros included:
  \<^item> a comparison \<^verbatim>\<open>a >= b\<close> that holds has two operands that are not \<^verbatim>\<open>NaN\<close>, and
    each of them is \<^verbatim>\<open>>=\<close> itself;
  \<^item> \<^verbatim>\<open>>=\<close> is transitive;
  \<^item> \<^verbatim>\<open>Math.min\<close> of two Numbers that are not \<^verbatim>\<open>NaN\<close> is one of them and is not
    above either;
  \<^item> the sum of two Numbers not below zero is not below zero (it may be infinite);
  \<^item> the product of two finite Numbers not below zero is not below zero;
  \<^item> for a finite \<open>a\<close> and \<open>a \<ge> b \<ge> 0\<close>, the difference \<open>a - b\<close> is not below zero and
    not above \<open>a\<close> (rounding is monotone and \<open>0\<close> and \<open>a\<close> are Numbers);
  \<^item> a Number between zero and a finite Number is finite.
\<close>

definition ieee_order :: "'f arith \<Rightarrow> bool" where
  "ieee_order A =
     (let zero = js_int A 0
      in (\<forall>a b. js_ge A a b \<longrightarrow> js_ge A a a \<and> js_ge A b b) \<and>
         (\<forall>a b c. js_ge A a b \<and> js_ge A b c \<longrightarrow> js_ge A a c) \<and>
         (\<forall>a b. js_ge A a a \<and> js_ge A b b \<longrightarrow>
            (js_min A a b = a \<or> js_min A a b = b) \<and>
            js_ge A a (js_min A a b) \<and> js_ge A b (js_min A a b)) \<and>
         (\<forall>a b. js_ge A a zero \<and> js_ge A b zero \<longrightarrow> js_ge A (js_add A a b) zero) \<and>
         (\<forall>a b. js_finite A a \<and> js_finite A b \<and> js_ge A a zero \<and> js_ge A b zero \<longrightarrow>
            js_ge A (js_mul A a b) zero) \<and>
         (\<forall>a b. js_finite A a \<and> js_ge A a b \<and> js_ge A b zero \<longrightarrow>
            js_ge A (js_sub A a b) zero \<and> js_ge A a (js_sub A a b)) \<and>
         (\<forall>m x. js_finite A m \<and> js_ge A m x \<and> js_ge A x zero \<longrightarrow> js_finite A x))"

text \<open>
  The invariant of the limiter: \<^verbatim>\<open>max\<close> and the refill rate are finite and not below
  zero, and every bucket holds between zero and \<^verbatim>\<open>max\<close> tokens.
\<close>

definition limiter_ok :: "'f arith \<Rightarrow> 'f limiter \<Rightarrow> bool" where
  "limiter_ok A L =
     (js_ge A (rl_max L) (js_int A 0) \<and> js_finite A (rl_max L) \<and>
      js_ge A (rl_refill L) (js_int A 0) \<and> js_finite A (rl_refill L) \<and>
      (\<forall>cid b. buckets L cid = Some b \<longrightarrow>
         js_ge A (tokens b) (js_int A 0) \<and> js_ge A (rl_max L) (tokens b)))"

text \<open>
  The value of \<^verbatim>\<open>elapsed\<close> in the \<^verbatim>\<open>_refill\<close> of a call for client \<open>cid\<close> at clock
  reading \<open>now\<close>; a bucket created by the call carries \<open>now\<close> itself.
\<close>

definition elapsed_seconds :: "'f arith \<Rightarrow> 'f limiter \<Rightarrow> 'f \<Rightarrow> string \<Rightarrow> 'f" where
  "elapsed_seconds A L now cid =
     js_div A (js_sub A now (case buckets L cid of None \<Rightarrow> now | Some b \<Rightarrow> last_ms b))
       (js_int A 1000)"

text \<open>
  Arithmetic for the examples: the real numbers, with a rendering \<open>render\<close> for
  \<^verbatim>\<open>String(n)\<close>. On the inputs of the examples every result is an integer or a multiple
  of one half of small size, which binary64 computes without rounding, so the results
  are those of the source.
\<close>

definition exact_arith :: "(real \<Rightarrow> string) \<Rightarrow> real arith" where
  "exact_arith render =
     \<lparr>js_int = real_of_int, js_add = (+), js_sub = (-), js_mul = (*), js_div = (/),
      js_min = min, js_floor = (\<lambda>x. real_of_int \<lfloor>x\<rfloor>), js_ge = (\<lambda>a b. b \<le> a),
      js_String = render, js_finite = (\<lambda>x. True)\<rparr>"

text \<open>
  A limiter with one drained bucket, last refilled at clock reading 0, and a limiter
  whose bucket holds half a token and was last refilled at clock reading 1000.
\<close>

definition drained_limiter :: "real limiter" where
  "drained_limiter =
     \<lparr>rl_max = 60, rl_refill = 1,
      buckets = [''ip:10.0.0.1'' \<mapsto> \<lparr>tokens = 0, last_ms = 0\<rparr>], limited = 0\<rparr>"

definition half_limiter :: "real limiter" where
  "half_limiter =
     \<lparr>rl_max = 60, rl_refill = 1,
      buckets = [''ip:10.0.0.1'' \<mapsto> \<lparr>tokens = 1/2, last_ms = 1000\<rparr>], limited = 0\<rparr>"

text \<open>
  The invariant of the cache: map and chain agree, and the chain is no longer than
  \<^verbatim>\<open>maxEntries\<close> allows.
\<close>

definition inv_c :: "'v ttl_cache \<Rightarrow> bool" where
  "inv_c c = (consistent c \<and> length (lru c) \<le> nat (maxEntries c))"

text \<open>Moving a key to the front of a recency order.\<close>

definition mtf :: "string \<Rightarrow> string list \<Rightarrow> string list" where
  "mtf k xs = k # remove1 k xs"

text \<open>
  A \<^verbatim>\<open>set\<close> call as a tuple of key, value, TTL override and clock reading; the node it
  stores in a cache whose configured TTL is \<open>ttl\<close>; a history of such calls.
\<close>

type_synonym 'v insertion = "string \<times> 'v \<times> int option \<times> int"

fun node_of :: "int \<Rightarrow> 'v insertion \<Rightarrow> 'v node" where
  "node_of ttl (k, v, ttlOverrideMs, now) =
     \<lparr>value_n = v, expiresAt = now + (case ttlOverrideMs of Some t \<Rightarrow> t | None \<Rightarrow> ttl)\<rparr>"

fun set_op :: "'v insertion \<Rightarrow> 'v cache_op" where
  "set_op (k, v, ttlOverrideMs, now) = OpSet k v ttlOverrideMs now"

definition sets_of :: "'v insertion list \<Rightarrow> 'v cache_op list" where
  "sets_of xs = map set_op xs"

text \<open>Histories used as examples.\<close>

definition purge_then_insert :: "unit cache_op list" where
  "purge_then_insert =
     [OpSet ''a'' () None 0, OpSet ''e'' () None 1, OpSet ''x'' () (Some 5) 2,
      OpSet ''b'' () (Some 5) 3, OpGet ''b'' 10, OpSet ''d'' () None 11]"

definition hit_then_insert :: "unit cache_op list" where
  "hit_then_insert =
     [OpSet ''a'' () None 0, OpSet ''b'' () None 1, OpGet ''a'' 2, OpSet ''c'' () None 3]"

definition one_entry :: "nat ttl_cache" where
  "one_entry = set_c (new_cache 10 5) ''a'' 7 None 0"

text \<open>
  Example data for the request handler: a server that has just started with the default
  configuration, a parser that knows the bodies used below, a decoder for bodies made of
  ASCII and of the bytes FE and FF (which no UTF-8 sequence contains, so that each of
  them decodes to U+FFFD, in UTF-8 the bytes EF BF BD), and requests.
\<close>

definition fresh_server :: "real server" where
  "fresh_server =
     \<lparr>cache = new_cache 60000 500, limiter = new_limiter 60 1,
      stats = \<lparr>total_requests = 0, cache_hits = 0, cache_misses = 0, cache_bypass = 0,
               cache_stores = 0, rate_limited = 0, upstream_errors = 0, in_flight = 0\<rparr>\<rparr>"

definition default_config :: config where
  "default_config = \<lparr>UPSTREAM_API_KEY = [], CACHE_ONLY_SUCCESS = True, ADMIN_TOKEN = ''changeme''\<rparr>"

definition parse_examples :: "string \<Rightarrow> json option" where
  "parse_examples text =
     (if text = ''{\"stream\":1}'' then Some (JObject [(''stream'', JNumber 1)])
      else if text = ''{\"stream\":true}'' then Some (JObject [(''stream'', JBool True)])
      else if text = ''{\"a\":1}'' then Some (JObject [(''a'', JNumber 1)])
      else None)"

definition decode_examples :: "string \<Rightarrow> string" where
  "decode_examples bytes =
     concat (map (\<lambda>c. if (of_char c :: nat) \<in> set [254, 255]
                       then [char_of (239 :: nat), char_of (191 :: nat), char_of (189 :: nat)]
                       else [c]) bytes)"

definition extern_with :: "(string \<Rightarrow> string) \<Rightarrow> extern" where
  "extern_with digest =
     \<lparr>sha256hex = digest, JSON_parse = parse_examples, toString_utf8 = decode_examples\<rparr>"

definition post_json :: "string \<Rightarrow> (string \<times> string) list \<Rightarrow> request" where
  "post_json body extra =
     \<lparr>req_method = ''POST'', pathname = ''/v1/chat/completions'', search = [],
      headers = (''content-type'', ''application/json'') # extra,
      body_bytes = body, remoteAddress = Some ''10.0.0.1''\<rparr>"

definition at_time :: "int \<Rightarrow> clock" where
  "at_time t = \<lparr>t_admit = t, t_lookup = t, t_store = t\<rparr>"

definition stream_1_request :: request where
  "stream_1_request = post_json ''{\"stream\":1}'' []"

definition stream_true_request :: request where
  "stream_true_request = post_json ''{\"stream\":true}'' []"

definition plain_request :: request where
  "plain_request = post_json ''{\"a\":1}'' []"

definition invalidate_request :: request where
  "invalidate_request = post_json ''{\"a\":1}'' [(''x-cache-invalidate'', ''true'')]"

text \<open>A streaming request whose content type is not JSON.\<close>

definition stream_text_request :: request where
  "stream_text_request =
     \<lparr>req_method = ''POST'', pathname = ''/v1/chat/completions'', search = [],
      headers = [(''content-type'', ''text/plain'')],
      body_bytes = ''{\"stream\":true}'', remoteAddress = Some ''10.0.0.1''\<rparr>"

text \<open>The server after it has answered a request from the upstream at clock reading 0.\<close>

definition after_first :: "(string \<Rightarrow> string) \<Rightarrow> (real \<Rightarrow> string) \<Rightarrow> real server" where
  "after_first digest render =
     snd (handler (exact_arith render) (extern_with digest) default_config (at_time 0)
            (Responded 200 [] ''first'') fresh_server stream_1_request)"

definition after_stream_text :: "(string \<Rightarrow> string) \<Rightarrow> (real \<Rightarrow> string) \<Rightarrow> real server" where
  "after_stream_text digest render =
     snd (handler (exact_arith render) (extern_with digest) default_config (at_time 0)
            (Responded 200 [] ''first'') fresh_server stream_text_request)"

text \<open>
  The request reaches \<^verbatim>\<open>fetch\<close>: its path is under \<^verbatim>\<open>/v1/\<close>, the limiter admits it,
  and it bypasses the cache or misses it.
\<close>

definition admitted :: "'f arith \<Rightarrow> extern \<Rightarrow> clock \<Rightarrow> 'f server \<Rightarrow> request \<Rightarrow> bool" where
  "admitted A X clk S req =
     (prefix ''/v1/'' (pathname req) \<and>
      ok (fst (tryRemoveToken A (limiter S) (js_int A (t_admit clk)) (pickClientId X req)
                 (js_int A 1))))"

definition reaches_fetch ::
  "'f arith \<Rightarrow> extern \<Rightarrow> config \<Rightarrow> clock \<Rightarrow> 'f server \<Rightarrow> request \<Rightarrow> bool" where
  "reaches_fetch A X cfg clk S req =
     (admitted A X clk S req \<and>
      (bypass X req \<or>
       fst (get_c (cache S) (request_key X cfg req) (t_lookup clk)) = None))"

text \<open>The route of the administrative purge.\<close>

definition is_purge_route :: "request \<Rightarrow> bool" where
  "is_purge_route req = (pathname req = ''/admin/cache/purge'' \<and> req_method req = ''POST'')"

text \<open>
  What the key derivation can rely on. The digest is 64 lower-case hexadecimal
  characters, as \<^verbatim>\<open>digest('hex')\<close> of SHA-256 is. A method has no colon,
  \<^verbatim>\<open>url.pathname\<close> has no question mark, and \<^verbatim>\<open>url.search\<close> is empty or begins with
  one. The credential that enters the key is the \<^verbatim>\<open>authorization\<close> header, or the
  configured upstream key when the header is absent or empty; \<open>credential_bytes\<close> are
  the bytes of it that are digested.
\<close>

definition is_hex :: "char \<Rightarrow> bool" where
  "is_hex c = (c \<in> set ''0123456789abcdef'')"

definition hex_digest :: "extern \<Rightarrow> bool" where
  "hex_digest X = (\<forall>s. length (sha256hex X s) = 64 \<and> (\<forall>c \<in> set (sha256hex X s). is_hex c))"

definition target_ok :: "string \<Rightarrow> string \<Rightarrow> string \<Rightarrow> bool" where
  "target_ok m path query =
     (CHR '':'' \<notin> set m \<and> CHR ''?'' \<notin> set path \<and> (query = [] \<or> hd query = CHR ''?''))"

definition request_ok :: "request \<Rightarrow> bool" where
  "request_ok req = target_ok (req_method req) (pathname req) (search req)"

definition credential_bytes :: "config \<Rightarrow> string \<Rightarrow> string" where
  "credential_bytes cfg authHeader =
     (if authHeader \<noteq> [] then utf8_of_latin1 authHeader else UPSTREAM_API_KEY cfg)"

text \<open>
  A stand-in digest with the right format that tells short inputs apart (the
  hexadecimal digits of the first 32 bytes, filled up with zeros), requests that differ
  in the body bytes only, and a configuration with an upstream key.
\<close>

definition hexdigit :: "nat \<Rightarrow> char" where
  "hexdigit d = ''0123456789abcdef'' ! (d mod 16)"

definition sample_digest :: "string \<Rightarrow> string" where
  "sample_digest s =
     take 64 (concat (map (\<lambda>c. [hexdigit ((of_char c :: nat) div 16), hexdigit (of_char c)]) s)
              @ replicate 64 (CHR ''0''))"

definition with_body :: "string \<Rightarrow> string \<Rightarrow> string \<Rightarrow> request" where
  "with_body m auth body =
     \<lparr>req_method = m, pathname = ''/v1/chat/completions'', search = [],
      headers = (if auth = [] then [] else [(''authorization'', auth)]),
      body_bytes = body, remoteAddress = Some ''10.0.0.1''\<rparr>"

definition keyed_config :: config where
  "keyed_config = \<lparr>UPSTREAM_API_KEY = ''sk-upstream'', CACHE_ONLY_SUCCESS = True, ADMIN_TOKEN = ''changeme''\<rparr>"

section \<open>Properties of the rate limiter\<close>

lemma bucket_literal:
  "(b::'f bucket)\<lparr>tokens := x, last_ms := y\<rparr> = \<lparr>tokens = x, last_ms = y\<rparr>"
  by (cases b) simp

lemma tryRemoveToken_config:
  "rl_max (snd (tryRemoveToken A L now cid n)) = rl_max L"
  "rl_refill (snd (tryRemoveToken A L now cid n)) = rl_refill L"
  by (simp_all add: tryRemoveToken_def Let_def)

text \<open>
  The bucket that a call stores for its client: the refilled bucket, less \<open>n\<close> tokens
  when the call is served.
\<close>

lemma tryRemoveToken_buckets:
  "buckets (snd (tryRemoveToken A L now cid n)) =
     (buckets L)(cid \<mapsto>
        \<lparr>tokens =
           (let t = js_min A (rl_max L)
                      (js_add A (case buckets L cid of None \<Rightarrow> rl_max L | Some b \<Rightarrow> tokens b)
                         (js_mul A (elapsed_seconds A L now cid) (rl_refill L)))
            in if js_ge A t n then js_sub A t n else t),
         last_ms = now\<rparr>)"
  by (cases "buckets L cid")
     (simp_all add: tryRemoveToken_def refill_def Let_def bucket_literal elapsed_seconds_def)

lemma ieee_order_exact: "ieee_order (exact_arith render)"
  by (simp add: ieee_order_def exact_arith_def Let_def min_def)

text \<open>The range of the refilled and served tokens, from the laws of order.\<close>

lemma served_tokens_in_range:
  assumes io: "ieee_order A"
    and mx: "js_ge A m (js_int A 0)" "js_finite A m"
    and rt: "js_ge A r (js_int A 0)" "js_finite A r"
    and n0: "js_ge A n (js_int A 0)"
    and t0: "js_ge A t0 (js_int A 0)"
    and el: "js_ge A e (js_int A 0)" "js_finite A e"
  shows "(let t = js_min A m (js_add A t0 (js_mul A e r));
              t' = (if js_ge A t n then js_sub A t n else t)
          in js_ge A t' (js_int A 0) \<and> js_ge A m t')"
proof -
  let ?z = "js_int A 0"
  let ?s = "js_add A t0 (js_mul A e r)"
  let ?t = "js_min A m ?s"
  have refl: "js_ge A a a \<and> js_ge A b b" if "js_ge A a b" for a b
    using io that unfolding ieee_order_def Let_def by blast
  have trans: "js_ge A a c" if "js_ge A a b" "js_ge A b c" for a b c
    using io that unfolding ieee_order_def Let_def by blast
  have minl: "(js_min A a b = a \<or> js_min A a b = b) \<and> js_ge A a (js_min A a b)"
    if "js_ge A a a" "js_ge A b b" for a b
    using io that unfolding ieee_order_def Let_def by blast
  have add: "js_ge A (js_add A a b) ?z" if "js_ge A a ?z" "js_ge A b ?z" for a b
    using io that unfolding ieee_order_def Let_def by blast
  have mul: "js_ge A (js_mul A a b) ?z"
    if "js_finite A a" "js_finite A b" "js_ge A a ?z" "js_ge A b ?z" for a b
    using io that unfolding ieee_order_def Let_def by blast
  have sub: "js_ge A (js_sub A a b) ?z \<and> js_ge A a (js_sub A a b)"
    if "js_finite A a" "js_ge A a b" "js_ge A b ?z" for a b
    using io that unfolding ieee_order_def Let_def by blast
  have fin: "js_finite A x" if "js_finite A m'" "js_ge A m' x" "js_ge A x ?z" for m' x
    using io that unfolding ieee_order_def Let_def by blast
  have a0: "js_ge A (js_mul A e r) ?z" using el(2) rt(2) el(1) rt(1) by (rule mul)
  have s0: "js_ge A ?s ?z" using t0 a0 by (rule add)
  have mm: "js_ge A m m" using refl[OF mx(1)] by blast
  have ss: "js_ge A ?s ?s" using refl[OF s0] by blast
  have tm: "?t = m \<or> ?t = ?s" and mt: "js_ge A m ?t" using minl[OF mm ss] by blast+
  have tz: "js_ge A ?t ?z" using tm mx(1) s0 by metis
  have tf: "js_finite A ?t" using mx(2) mt tz by (rule fin)
  show ?thesis
  proof (cases "js_ge A ?t n")
    case True
    have "js_ge A (js_sub A ?t n) ?z" and "js_ge A ?t (js_sub A ?t n)"
      using sub[OF tf True n0] by blast+
    moreover from this have "js_ge A m (js_sub A ?t n)" using mt trans by blast
    ultimately show ?thesis using True by (simp add: Let_def)
  next
    case False
    then show ?thesis using tz mt by (simp add: Let_def)
  qed
qed

lemma tryRemoveToken_limiter_ok:
  assumes io: "ieee_order A" and ok: "limiter_ok A L" and n0: "js_ge A n (js_int A 0)"
    and el: "js_ge A (elapsed_seconds A L now cid) (js_int A 0)"
            "js_finite A (elapsed_seconds A L now cid)"
  shows "limiter_ok A (snd (tryRemoveToken A L now cid n))"
proof -
  let ?z = "js_int A 0"
  let ?L' = "snd (tryRemoveToken A L now cid n)"
  let ?t0 = "case buckets L cid of None \<Rightarrow> rl_max L | Some b \<Rightarrow> tokens b"
  have mx: "js_ge A (rl_max L) ?z" "js_finite A (rl_max L)"
    and rt: "js_ge A (rl_refill L) ?z" "js_finite A (rl_refill L)"
    and bs: "\<And>c b. buckets L c = Some b \<Longrightarrow> js_ge A (tokens b) ?z \<and> js_ge A (rl_max L) (tokens b)"
    using ok unfolding limiter_ok_def by blast+
  have t0: "js_ge A ?t0 ?z" using mx(1) bs by (cases "buckets L cid") simp_all
  note rng = served_tokens_in_range[OF io mx rt n0 t0 el]
  have "js_ge A (tokens b) ?z \<and> js_ge A (rl_max L) (tokens b)" if "buckets ?L' c = Some b" for c b
  proof (cases "c = cid")
    case True
    then show ?thesis using that rng unfolding tryRemoveToken_buckets Let_def by auto
  next
    case False
    then have "buckets L c = Some b" using that unfolding tryRemoveToken_buckets by simp
    then show ?thesis by (rule bs)
  qed
  then show ?thesis
    unfolding limiter_ok_def tryRemoveToken_config using mx rt by blast
qed

text \<open>
  C1. For every client id and every amount \<open>n\<close> (in particular every \<open>n \<ge> 1\<close>), in
  the arithmetic of JavaScript Numbers: \<^verbatim>\<open>tryRemoveToken\<close> takes the stored bucket of
  the client, or a new bucket holding \<^verbatim>\<open>max\<close> tokens when the client is seen for the
  first time; it refills it to \<open>t = min(max, tokens + elapsedSeconds * refillRate)\<close>;
  if \<open>t >= n\<close> it stores \<open>t - n\<close> and answers \<open>ok\<close> with the floor of the stored
  tokens as \<open>remaining\<close>; otherwise it stores \<open>t\<close> unchanged, answers not \<open>ok\<close> with
  the floor of \<open>t\<close>, and counts one more rejection.
\<close>

theorem tryRemoveToken_refill_then_consume:
  "(let b0 = (case buckets L cid of
                None \<Rightarrow> \<lparr>tokens = rl_max L, last_ms = now\<rparr>
              | Some b \<Rightarrow> b);
        elapsedSeconds = js_div A (js_sub A now (last_ms b0)) (js_int A 1000);
        t = js_min A (rl_max L) (js_add A (tokens b0) (js_mul A elapsedSeconds (rl_refill L)));
        r = fst (tryRemoveToken A L now cid n);
        L' = snd (tryRemoveToken A L now cid n);
        t' = (if js_ge A t n then js_sub A t n else t)
    in ok r = js_ge A t n \<and> remaining r = js_floor A t' \<and>
       buckets L' = (buckets L)(cid \<mapsto> \<lparr>tokens = t', last_ms = now\<rparr>) \<and>
       limited L' = (if js_ge A t n then limited L else limited L + 1) \<and>
       rl_max L' = rl_max L \<and> rl_refill L' = rl_refill L)"
  by (cases "buckets L cid") (simp_all add: tryRemoveToken_def refill_def Let_def bucket_literal)

theorem tryRemoveToken_refill_then_consume_witness:
  "\<forall>render.
     fst (tryRemoveToken (exact_arith render) drained_limiter 1500 ''ip:10.0.0.1'' 1)
       = \<lparr>ok = True, remaining = 0\<rparr> \<and>
     buckets (snd (tryRemoveToken (exact_arith render) drained_limiter 1500 ''ip:10.0.0.1'' 1))
       ''ip:10.0.0.1'' = Some \<lparr>tokens = 1/2, last_ms = 1500\<rparr> \<and>
     fst (tryRemoveToken (exact_arith render) drained_limiter 500 ''ip:10.0.0.1'' 1)
       = \<lparr>ok = False, remaining = 0\<rparr> \<and>
     limited (snd (tryRemoveToken (exact_arith render) drained_limiter 500 ''ip:10.0.0.1'' 1)) = 1 \<and>
     fst (tryRemoveToken (exact_arith render) drained_limiter 500 ''ip:10.0.0.2'' 1)
       = \<lparr>ok = True, remaining = 59\<rparr>"
  using tryRemoveToken_refill_then_consume
      [where A = "exact_arith render" and L = drained_limiter and cid = "''ip:10.0.0.1''"
         and now = 1500 and n = 1 for render]
    tryRemoveToken_refill_then_consume
      [where A = "exact_arith render" and L = drained_limiter and cid = "''ip:10.0.0.1''"
         and now = 500 and n = 1 for render]
    tryRemoveToken_refill_then_consume
      [where A = "exact_arith render" and L = drained_limiter and cid = "''ip:10.0.0.2''"
         and now = 500 and n = 1 for render]
  by (simp add: drained_limiter_def exact_arith_def Let_def rl_result.equality)

text \<open>
  C7 (amended). Every \<^verbatim>\<open>tryRemoveToken\<close> sets the timestamp of the bucket it serves
  to the clock reading of the call, whatever the timestamp was, and leaves every other
  bucket as it was; so the timestamp of a bucket does not decrease from one call to
  the next exactly when the clock reading does not, which the limiter neither checks
  nor enforces. The range holds under conditions: when \<^verbatim>\<open>max\<close> and the refill rate are
  finite and not below zero, every stored bucket holds between 0 and \<^verbatim>\<open>max\<close> tokens,
  the amount \<open>n\<close> is not below zero, and the elapsed time that the call computes is
  finite and not below zero (the clock reading is not behind the timestamp of the
  bucket), then after the call every bucket holds between 0 and \<^verbatim>\<open>max\<close> tokens.
\<close>

theorem tryRemoveToken_timestamp_and_range:
  "(let L' = snd (tryRemoveToken A L now cid n)
    in (\<exists>b. buckets L' cid = Some b \<and> last_ms b = now) \<and>
       (\<forall>c. c \<noteq> cid \<longrightarrow> buckets L' c = buckets L c) \<and>
       (ieee_order A \<and> limiter_ok A L \<and> js_ge A n (js_int A 0) \<and>
        js_ge A (elapsed_seconds A L now cid) (js_int A 0) \<and>
        js_finite A (elapsed_seconds A L now cid)
        \<longrightarrow> limiter_ok A L'))"
proof -
  have a: "\<exists>b. buckets (snd (tryRemoveToken A L now cid n)) cid = Some b \<and> last_ms b = now"
    unfolding tryRemoveToken_buckets by simp
  have b: "\<forall>c. c \<noteq> cid \<longrightarrow> buckets (snd (tryRemoveToken A L now cid n)) c = buckets L c"
    unfolding tryRemoveToken_buckets by simp
  have c: "limiter_ok A (snd (tryRemoveToken A L now cid n))"
    if "ieee_order A" "limiter_ok A L" "js_ge A n (js_int A 0)"
      "js_ge A (elapsed_seconds A L now cid) (js_int A 0)"
      "js_finite A (elapsed_seconds A L now cid)"
    using that by (rule tryRemoveToken_limiter_ok)
  show ?thesis
    unfolding Let_def using a b c by blast
qed

theorem tryRemoveToken_timestamp_and_range_witness:
  "\<forall>render.
     ieee_order (exact_arith render) \<and> limiter_ok (exact_arith render) drained_limiter \<and>
     js_ge (exact_arith render) 1 (js_int (exact_arith render) 0) \<and>
     js_ge (exact_arith render)
       (elapsed_seconds (exact_arith render) drained_limiter 1500 ''ip:10.0.0.1'')
       (js_int (exact_arith render) 0) \<and>
     js_finite (exact_arith render)
       (elapsed_seconds (exact_arith render) drained_limiter 1500 ''ip:10.0.0.1'') \<and>
     limiter_ok (exact_arith render)
       (snd (tryRemoveToken (exact_arith render) drained_limiter 1500 ''ip:10.0.0.1'' 1)) \<and>
     buckets (snd (tryRemoveToken (exact_arith render) drained_limiter 1500 ''ip:10.0.0.1'' 1))
       ''ip:10.0.0.1'' = Some \<lparr>tokens = 1/2, last_ms = 1500\<rparr>"
proof
  fix render
  let ?A = "exact_arith render"
  have h1: "ieee_order ?A" by (rule ieee_order_exact)
  have h2: "limiter_ok ?A drained_limiter"
    by (simp add: limiter_ok_def drained_limiter_def exact_arith_def)
  have h3: "js_ge ?A 1 (js_int ?A 0)" by (simp add: exact_arith_def)
  have h4: "js_ge ?A (elapsed_seconds ?A drained_limiter 1500 ''ip:10.0.0.1'') (js_int ?A 0)"
    by (simp add: elapsed_seconds_def drained_limiter_def exact_arith_def)
  have h5: "js_finite ?A (elapsed_seconds ?A drained_limiter 1500 ''ip:10.0.0.1'')"
    by (simp add: exact_arith_def)
  have h6: "limiter_ok ?A (snd (tryRemoveToken ?A drained_limiter 1500 ''ip:10.0.0.1'' 1))"
    using h1 h2 h3 h4 h5
      tryRemoveToken_timestamp_and_range
        [where A = ?A and L = drained_limiter and now = 1500 and cid = "''ip:10.0.0.1''" and n = 1]
    unfolding Let_def by blast
  have h7: "buckets (snd (tryRemoveToken ?A drained_limiter 1500 ''ip:10.0.0.1'' 1))
       ''ip:10.0.0.1'' = Some \<lparr>tokens = 1/2, last_ms = 1500\<rparr>"
    by (simp add: tryRemoveToken_buckets elapsed_seconds_def drained_limiter_def exact_arith_def)
  show "ieee_order ?A \<and> limiter_ok ?A drained_limiter \<and> js_ge ?A 1 (js_int ?A 0) \<and>
     js_ge ?A (elapsed_seconds ?A drained_limiter 1500 ''ip:10.0.0.1'') (js_int ?A 0) \<and>
     js_finite ?A (elapsed_seconds ?A drained_limiter 1500 ''ip:10.0.0.1'') \<and>
     limiter_ok ?A (snd (tryRemoveToken ?A drained_limiter 1500 ''ip:10.0.0.1'' 1)) \<and>
     buckets (snd (tryRemoveToken ?A drained_limiter 1500 ''ip:10.0.0.1'' 1))
       ''ip:10.0.0.1'' = Some \<lparr>tokens = 1/2, last_ms = 1500\<rparr>"
    using h1 h2 h3 h4 h5 h6 h7 by blast
qed

text \<open>
  The claim as stated fails when the clock reading of a call is behind the timestamp of
  the bucket: a bucket with half a token, last refilled at clock reading 1000, is left
  by a call at clock reading 0 with minus half a token and the timestamp 0. Before the
  call the bucket was in range; after it the tokens are below zero and the timestamp
  has decreased.
\<close>

theorem tryRemoveToken_clock_behind_counterexample:
  "\<forall>render.
     limiter_ok (exact_arith render) half_limiter \<and>
     buckets half_limiter ''ip:10.0.0.1'' = Some \<lparr>tokens = 1/2, last_ms = 1000\<rparr> \<and>
     buckets (snd (tryRemoveToken (exact_arith render) half_limiter 0 ''ip:10.0.0.1'' 1))
       ''ip:10.0.0.1'' = Some \<lparr>tokens = - 1/2, last_ms = 0\<rparr> \<and>
     \<not> js_ge (exact_arith render) (- 1/2) (js_int (exact_arith render) 0) \<and>
     \<not> js_ge (exact_arith render) 0 1000 \<and>
     \<not> limiter_ok (exact_arith render)
         (snd (tryRemoveToken (exact_arith render) half_limiter 0 ''ip:10.0.0.1'' 1))"
proof
  fix render
  let ?A = "exact_arith render"
  let ?L' = "snd (tryRemoveToken ?A half_limiter 0 ''ip:10.0.0.1'' 1)"
  have c1: "limiter_ok ?A half_limiter"
    by (simp add: limiter_ok_def half_limiter_def exact_arith_def)
  have c2: "buckets half_limiter ''ip:10.0.0.1'' = Some \<lparr>tokens = 1/2, last_ms = 1000\<rparr>"
    by (simp add: half_limiter_def)
  have c3: "buckets ?L' ''ip:10.0.0.1'' = Some \<lparr>tokens = - 1/2, last_ms = 0\<rparr>"
    by (simp add: tryRemoveToken_buckets elapsed_seconds_def half_limiter_def exact_arith_def)
  have c4: "\<not> js_ge ?A (- 1/2) (js_int ?A 0)" by (simp add: exact_arith_def)
  have c5: "\<not> js_ge ?A 0 1000" by (simp add: exact_arith_def)
  have c6: "\<not> limiter_ok ?A ?L'"
  proof
    assume "limiter_ok ?A ?L'"
    then have "js_ge ?A (tokens \<lparr>tokens = - 1/2, last_ms = 0\<rparr>) (js_int ?A 0)"
      using c3 unfolding limiter_ok_def by blast
    then show False using c4 by simp
  qed
  show "limiter_ok ?A half_limiter \<and>
     buckets half_limiter ''ip:10.0.0.1'' = Some \<lparr>tokens = 1/2, last_ms = 1000\<rparr> \<and>
     buckets ?L' ''ip:10.0.0.1'' = Some \<lparr>tokens = - 1/2, last_ms = 0\<rparr> \<and>
     \<not> js_ge ?A (- 1/2) (js_int ?A 0) \<and> \<not> js_ge ?A 0 1000 \<and> \<not> limiter_ok ?A ?L'"
    using c1 c2 c3 c4 c5 c6 by blast
qed

section \<open>Properties of the cache\<close>

lemmas cache_eval =
  new_cache_def set_c_def get_c_def Let_def attach_def detach_def moveToFront_def
  evictIfNeeded.simps map_size_def present_def isExpired_def live_keys_def

lemma consistent_new: "consistent (new_cache ttl cap)"
  by (simp add: consistent_def new_cache_def)

lemma map_size_consistent: "consistent c \<Longrightarrow> map_size c = length (lru c)"
  by (metis consistent_def distinct_card map_size_def)

lemma remove1_last_distinct: "distinct xs \<Longrightarrow> xs \<noteq> [] \<Longrightarrow> remove1 (last xs) xs = butlast xs"
  by (induction xs) (auto)

lemma evict_step_consistent:
  assumes "consistent c" "lru c \<noteq> []"
  shows "consistent ((detach (last (lru c)) c)\<lparr>cmap := (cmap c)(last (lru c) := None), evictions := e\<rparr>)"
  using assms
  by (auto simp: consistent_def detach_def)

lemma evict_stop:
  "\<not> (maxEntries c < int (map_size c) \<and> lru c \<noteq> []) \<Longrightarrow> evictIfNeeded c = c"
  by (subst evictIfNeeded.simps) auto

lemma evict_go:
  "maxEntries c < int (map_size c) \<Longrightarrow> lru c \<noteq> [] \<Longrightarrow>
   evictIfNeeded c =
     evictIfNeeded ((detach (last (lru c)) c)\<lparr>cmap := (cmap c)(last (lru c) := None),
                      evictions := evictions c + 1\<rparr>)"
  by (subst evictIfNeeded.simps) (simp add: Let_def detach_def)

lemma evictIfNeeded_lru:
  "consistent c \<Longrightarrow> lru (evictIfNeeded c) = take (nat (maxEntries c)) (lru c)"
proof (induction c rule: evictIfNeeded.induct)
  case (1 c)
  show ?case
  proof (cases "maxEntries c < int (map_size c) \<and> lru c \<noteq> []")
    case True
    let ?k = "last (lru c)"
    let ?c' = "(detach ?k c)\<lparr>cmap := (cmap (detach ?k c))(?k := None)\<rparr>"
    let ?c'' = "?c'\<lparr>evictions := evictions ?c' + 1\<rparr>"
    have cons: "consistent ?c''"
      using evict_step_consistent[OF "1.prems", of "evictions ?c' + 1"] True
      by (simp add: detach_def)
    have ih: "lru (evictIfNeeded ?c'') = take (nat (maxEntries ?c'')) (lru ?c'')"
      using "1.IH"[OF True refl refl refl cons] .
    have len: "nat (maxEntries c) < length (lru c)"
      using True map_size_consistent[OF "1.prems"] by (cases "0 \<le> maxEntries c") auto
    have l2: "lru ?c'' = butlast (lru c)"
      using "1.prems" True by (simp add: detach_def consistent_def remove1_last_distinct)
    have "evictIfNeeded c = evictIfNeeded ?c''"
      using True by (subst evictIfNeeded.simps) (simp add: Let_def)
    then show ?thesis using ih l2 len
      by (simp add: detach_def take_butlast)
  next
    case False
    then have e: "evictIfNeeded c = c" by (rule evict_stop)
    from False have "lru c = [] \<or> length (lru c) \<le> nat (maxEntries c)"
      using map_size_consistent[OF "1.prems"] by auto
    then show ?thesis using e by auto
  qed
qed

lemma evictIfNeeded_full:
  "consistent c \<Longrightarrow>
   evictIfNeeded c =
     c\<lparr>lru := take (nat (maxEntries c)) (lru c),
       cmap := cmap c |` set (take (nat (maxEntries c)) (lru c)),
       evictions := evictions c + (length (lru c) - nat (maxEntries c))\<rparr>"
proof (induction c rule: evictIfNeeded.induct)
  case (1 c)
  let ?m = "nat (maxEntries c)"
  show ?case
  proof (cases "maxEntries c < int (map_size c) \<and> lru c \<noteq> []")
    case True
    let ?k = "last (lru c)"
    let ?c' = "(detach ?k c)\<lparr>cmap := (cmap (detach ?k c))(?k := None)\<rparr>"
    let ?c'' = "?c'\<lparr>evictions := evictions ?c' + 1\<rparr>"
    have cons: "consistent ?c''"
      using evict_step_consistent[OF "1.prems", of "evictions ?c' + 1"] True
      by (simp add: detach_def)
    note ih = "1.IH"[OF True refl refl refl cons]
    have len: "?m < length (lru c)"
      using True map_size_consistent[OF "1.prems"] by (cases "0 \<le> maxEntries c") auto
    have d: "distinct (lru c)" using "1.prems" by (simp add: consistent_def)
    have l2: "lru ?c'' = butlast (lru c)"
      using d True by (simp add: detach_def remove1_last_distinct)
    have tk: "take ?m (butlast (lru c)) = take ?m (lru c)"
      using len by (simp add: take_butlast)
    have notin: "?k \<notin> set (take ?m (lru c))"
    proof -
      have "lru c = butlast (lru c) @ [?k]" using True by simp
      then have "distinct (butlast (lru c) @ [?k])" using d by metis
      then have "?k \<notin> set (butlast (lru c))" by simp
      then show ?thesis using tk by (metis in_set_takeD)
    qed
    have rm: "((cmap c)(?k := None)) |` set (take ?m (lru c)) = cmap c |` set (take ?m (lru c))"
      using notin by (auto simp: restrict_map_def fun_eq_iff)
    have ev: "evictions c + 1 + (length (butlast (lru c)) - ?m) = evictions c + (length (lru c) - ?m)"
      using len by simp
    have "evictIfNeeded c = evictIfNeeded ?c''"
      using True by (subst evictIfNeeded.simps) (simp add: Let_def)
    also have "\<dots> = ?c''\<lparr>lru := take (nat (maxEntries ?c'')) (lru ?c''),
       cmap := cmap ?c'' |` set (take (nat (maxEntries ?c'')) (lru ?c'')),
       evictions := evictions ?c'' + (length (lru ?c'') - nat (maxEntries ?c''))\<rparr>"
      by (rule ih)
    also have "\<dots> = c\<lparr>lru := take ?m (lru c), cmap := cmap c |` set (take ?m (lru c)),
       evictions := evictions c + (length (lru c) - ?m)\<rparr>"
      using tk rm ev l2 by (simp add: detach_def)
    finally show ?thesis .
  next
    case False
    then have e: "evictIfNeeded c = c" by (rule evict_stop)
    from False have le: "length (lru c) \<le> ?m"
      using map_size_consistent[OF "1.prems"] by auto
    have "cmap c |` set (lru c) = cmap c"
      using "1.prems" by (auto simp: consistent_def restrict_map_def fun_eq_iff)
    then show ?thesis using e le by simp
  qed
qed

lemma moveToFront_lru [simp]: "lru (moveToFront k c) = k # remove1 k (lru c)"
  by (auto simp: moveToFront_def attach_def detach_def split: list.splits)

lemma moveToFront_other [simp]:
  "cmap (moveToFront k c) = cmap c" "maxEntries (moveToFront k c) = maxEntries c"
  "ttlMs (moveToFront k c) = ttlMs c" "hits (moveToFront k c) = hits c"
  "misses (moveToFront k c) = misses c" "stores (moveToFront k c) = stores c"
  "evictions (moveToFront k c) = evictions c"
  by (auto simp: moveToFront_def attach_def detach_def)

lemma evict_attach:
  assumes "consistent c" "cmap c k = None"
  shows "evictIfNeeded (attach k (c\<lparr>cmap := (cmap c)(k \<mapsto> n)\<rparr>)) =
         c\<lparr>cmap := ((cmap c)(k \<mapsto> n)) |` set (take (nat (maxEntries c)) (k # lru c)),
           lru := take (nat (maxEntries c)) (k # lru c),
           evictions := evictions c + (Suc (length (lru c)) - nat (maxEntries c))\<rparr>"
proof -
  let ?c1 = "attach k (c\<lparr>cmap := (cmap c)(k \<mapsto> n)\<rparr>)"
  have nk: "k \<notin> set (lru c)" using assms by (auto simp: consistent_def)
  have cons: "consistent ?c1"
    using assms nk by (auto simp: consistent_def attach_def)
  show ?thesis
    by (subst evictIfNeeded_full[OF cons]) (simp add: attach_def)
qed

lemma set_c_fresh:
  assumes "consistent c" "cmap c k = None"
  shows "set_c c k v ttl now =
         c\<lparr>cmap := ((cmap c)(k \<mapsto> \<lparr>value_n = v, expiresAt = now + (case ttl of Some t \<Rightarrow> t | None \<Rightarrow> ttlMs c)\<rparr>))
                     |` set (take (nat (maxEntries c)) (k # lru c)),
           lru := take (nat (maxEntries c)) (k # lru c),
           evictions := evictions c + (Suc (length (lru c)) - nat (maxEntries c)),
           stores := stores c + 1\<rparr>"
  using assms by (simp add: set_c_def Let_def evict_attach)

lemma set_c_existing:
  assumes "cmap c k = Some e"
  shows "set_c c k v ttl now =
         (moveToFront k (c\<lparr>cmap := (cmap c)(k \<mapsto> e\<lparr>value_n := v, expiresAt := now + (case ttl of Some t \<Rightarrow> t | None \<Rightarrow> ttlMs c)\<rparr>)\<rparr>))
           \<lparr>stores := stores c + 1\<rparr>"
  using assms by (simp add: set_c_def Let_def)

lemma length_mtf: "k \<in> set xs \<Longrightarrow> length (k # remove1 k xs) = length xs"
  using length_pos_if_in_set[of k xs] by (simp add: length_remove1)

lemma set_c_lru:
  assumes "inv_c c"
  shows "lru (set_c c k v ttl now) = take (nat (maxEntries c)) (mtf k (lru c))"
proof (cases "cmap c k")
  case None
  have nk: "k \<notin> set (lru c)" using assms None by (auto simp: inv_c_def consistent_def)
  show ?thesis
    using None nk assms by (simp add: set_c_fresh inv_c_def mtf_def remove1_idem)
next
  case (Some n)
  then have "k \<in> set (lru c)" using assms by (auto simp: inv_c_def consistent_def)
  then have "length (mtf k (lru c)) \<le> nat (maxEntries c)"
    using assms length_mtf[of k "lru c"] by (simp add: inv_c_def mtf_def)
  then show ?thesis using Some by (simp add: set_c_existing mtf_def)
qed

lemma set_c_inv:
  assumes "inv_c c"
  shows "inv_c (set_c c k v ttl now)"
proof (cases "cmap c k")
  case None
  have nk: "k \<notin> set (lru c)" using assms None by (auto simp: inv_c_def consistent_def)
  have d: "distinct (k # lru c)" using assms nk by (simp add: inv_c_def consistent_def)
  have dm: "set (k # lru c) = dom ((cmap c)(k \<mapsto> x))" for x
    using assms by (auto simp: inv_c_def consistent_def)
  have sub: "set (take (nat (maxEntries c)) (k # lru c)) \<subseteq> set (k # lru c)"
    by (rule set_take_subset)
  have "dom (((cmap c)(k \<mapsto> x)) |` set (take (nat (maxEntries c)) (k # lru c)))
        = set (take (nat (maxEntries c)) (k # lru c))" for x
    using sub dm[of x] by (simp only: dom_restrict) blast
  then show ?thesis
    using None d assms
    by (simp add: set_c_fresh inv_c_def consistent_def distinct_take del: dom_restrict take_Cons')
next
  case (Some n)
  then have "k \<in> set (lru c)" using assms by (auto simp: inv_c_def consistent_def)
  then show ?thesis using Some assms length_mtf[of k "lru c"]
    by (auto simp: set_c_existing inv_c_def consistent_def)
qed

lemma get_c_absent:
  "cmap c k = None \<Longrightarrow> get_c c k now = (None, c\<lparr>misses := misses c + 1\<rparr>)"
  by (simp add: get_c_def)

lemma get_c_expired:
  "cmap c k = Some n \<Longrightarrow> isExpired n now \<Longrightarrow>
   get_c c k now = (None, c\<lparr>lru := remove1 k (lru c), cmap := (cmap c)(k := None),
                            misses := misses c + 1\<rparr>)"
  by (simp add: get_c_def Let_def detach_def)

lemma get_c_hit:
  "cmap c k = Some n \<Longrightarrow> \<not> isExpired n now \<Longrightarrow>
   get_c c k now = (Some (value_n n), (moveToFront k c)\<lparr>hits := hits c + 1\<rparr>)"
  by (simp add: get_c_def Let_def)

lemma get_c_inv:
  assumes "inv_c c"
  shows "inv_c (snd (get_c c k now))"
proof (cases "cmap c k")
  case None
  then show ?thesis using assms by (simp add: get_c_absent inv_c_def consistent_def)
next
  case (Some n)
  then have kin: "k \<in> set (lru c)" using assms by (auto simp: inv_c_def consistent_def)
  show ?thesis
  proof (cases "isExpired n now")
    case True
    have "length (remove1 k (lru c)) \<le> length (lru c)" by (simp add: length_remove1)
    then show ?thesis using Some True assms
      by (auto simp: get_c_expired inv_c_def consistent_def)
  next
    case False
    then show ?thesis using Some assms kin length_mtf[of k "lru c"]
      by (auto simp: get_c_hit inv_c_def consistent_def)
  qed
qed

lemma step_c_inv: "inv_c c \<Longrightarrow> inv_c (step_c c x)"
  by (cases x) (simp_all add: get_c_inv set_c_inv)

lemma run_c_inv: "inv_c c \<Longrightarrow> inv_c (run_c c xs)"
  by (induction xs arbitrary: c) (simp_all add: step_c_inv)

lemma inv_c_new: "inv_c (new_cache ttl cap)"
  by (simp add: inv_c_def consistent_def new_cache_def)

lemma evictIfNeeded_maxEntries [simp]: "maxEntries (evictIfNeeded c) = maxEntries c"
proof (induction c rule: evictIfNeeded.induct)
  case (1 c)
  show ?case
  proof (cases "maxEntries c < int (map_size c) \<and> lru c \<noteq> []")
    case True
    then show ?thesis
      using "1.IH"[OF True refl refl refl]
      by (subst evictIfNeeded.simps) (simp add: Let_def detach_def)
  next
    case False
    then show ?thesis by (simp add: evict_stop)
  qed
qed

lemma evictIfNeeded_ttlMs [simp]: "ttlMs (evictIfNeeded c) = ttlMs c"
proof (induction c rule: evictIfNeeded.induct)
  case (1 c)
  show ?case
  proof (cases "maxEntries c < int (map_size c) \<and> lru c \<noteq> []")
    case True
    then show ?thesis
      using "1.IH"[OF True refl refl refl]
      by (subst evictIfNeeded.simps) (simp add: Let_def detach_def)
  next
    case False
    then show ?thesis by (simp add: evict_stop)
  qed
qed

lemma set_c_config [simp]:
  "maxEntries (set_c c k v ttl now) = maxEntries c" "ttlMs (set_c c k v ttl now) = ttlMs c"
  by (simp_all add: set_c_def Let_def attach_def split: option.splits)

lemma get_c_config [simp]:
  "maxEntries (snd (get_c c k now)) = maxEntries c" "ttlMs (snd (get_c c k now)) = ttlMs c"
  by (simp_all add: get_c_def Let_def detach_def split: option.splits)

lemma step_c_config [simp]:
  "maxEntries (step_c c x) = maxEntries c" "ttlMs (step_c c x) = ttlMs c"
  by (cases x; simp)+

lemma run_c_config [simp]:
  "maxEntries (run_c c xs) = maxEntries c" "ttlMs (run_c c xs) = ttlMs c"
  by (induction xs arbitrary: c; simp)+

lemma lru_step:
  assumes "inv_c c"
  shows "lru (step_c c x) =
         (case effect_of c x of
            Touched k \<Rightarrow> take (nat (maxEntries c)) (mtf k (lru c))
          | Purged k \<Rightarrow> remove1 k (lru c)
          | Absent k \<Rightarrow> lru c)"
proof (cases x)
  case (OpGet k now)
  show ?thesis
  proof (cases "cmap c k")
    case None
    then show ?thesis using OpGet by (simp add: get_c_absent)
  next
    case (Some n)
    then have kin: "k \<in> set (lru c)" using assms by (auto simp: inv_c_def consistent_def)
    then have "length (mtf k (lru c)) \<le> nat (maxEntries c)"
      using assms length_mtf[of k "lru c"] by (simp add: inv_c_def mtf_def)
    then show ?thesis using OpGet Some
      by (cases "isExpired n now") (simp_all add: get_c_expired get_c_hit mtf_def)
  qed
next
  case (OpSet k v ttl now)
  then show ?thesis using assms by (simp add: set_c_lru)
qed

lemma take_remove1_Suc: "take m (remove1 k (take (Suc m) xs)) = take m (remove1 k xs)"
proof (induction xs arbitrary: m)
  case Nil
  then show ?case by simp
next
  case (Cons a xs)
  show ?case
  proof (cases m)
    case 0
    then show ?thesis by simp
  next
    case (Suc j)
    then show ?thesis using Cons.IH[of j] by simp
  qed
qed

lemma take_mtf_take: "take m (mtf k (take m xs)) = take m (mtf k xs)"
proof (cases m)
  case 0
  then show ?thesis by simp
next
  case (Suc j)
  have "take j (remove1 k (take (Suc j) xs)) = take j (remove1 k xs)"
    by (rule take_remove1_Suc)
  then show ?thesis using Suc by (simp add: mtf_def)
qed

lemma fold_mtf_take: "take m (fold mtf ks (take m xs)) = take m (fold mtf ks xs)"
proof (induction ks arbitrary: xs)
  case Nil
  then show ?case by simp
next
  case (Cons k ks)
  have "take m (fold mtf ks (mtf k (take m xs))) = take m (fold mtf ks (take m (mtf k (take m xs))))"
    by (rule Cons.IH[symmetric])
  also have "\<dots> = take m (fold mtf ks (take m (mtf k xs)))"
    by (simp only: take_mtf_take)
  also have "\<dots> = take m (fold mtf ks (mtf k xs))"
    by (rule Cons.IH)
  finally show ?case by simp
qed

lemma lru_run_no_purge:
  assumes "inv_c c" "no_purge (effects c ops)"
  shows "lru (run_c c ops) = take (nat (maxEntries c)) (fold mtf (touched (effects c ops)) (lru c))"
  using assms
proof (induction ops arbitrary: c)
  case Nil
  then show ?case by (simp add: inv_c_def)
next
  case (Cons x xs)
  let ?c1 = "step_c c x"
  have i1: "inv_c ?c1" using Cons.prems(1) by (rule step_c_inv)
  show ?case
  proof (cases "effect_of c x")
    case (Touched k)
    then have np: "no_purge (effects ?c1 xs)" using Cons.prems(2) by simp
    have l1: "lru ?c1 = take (nat (maxEntries c)) (mtf k (lru c))"
      using lru_step[OF Cons.prems(1), of x] Touched by simp
    show ?thesis
      using Cons.IH[OF i1 np] Touched l1 by (simp add: fold_mtf_take)
  next
    case (Purged k)
    then show ?thesis using Cons.prems(2) by simp
  next
    case (Absent k)
    then have np: "no_purge (effects ?c1 xs)" using Cons.prems(2) by simp
    have l1: "lru ?c1 = lru c"
      using lru_step[OF Cons.prems(1), of x] Absent by simp
    show ?thesis
      using Cons.IH[OF i1 np] Absent l1 by simp
  qed
qed

lemma remove1_filter_distinct: "distinct xs \<Longrightarrow> remove1 k xs = filter (\<lambda>x. x \<noteq> k) xs"
proof -
  assume d: "distinct xs"
  have "remove1 k xs = removeAll k xs" using d by (rule distinct_remove1_removeAll)
  also have "\<dots> = filter (\<lambda>x. k \<noteq> x) xs" by (simp add: removeAll_filter_not_eq)
  also have "\<dots> = filter (\<lambda>x. x \<noteq> k) xs" by (rule filter_cong) auto
  finally show ?thesis .
qed

lemma remdups_split: "remdups (xs @ ys) = remdups (filter (\<lambda>x. x \<notin> set ys) xs) @ remdups ys"
  by (induction xs) auto

lemma mtf_remdups: 
  assumes "distinct xs" shows "mtf k xs = rev (remdups (rev xs @ [k]))"
proof -
  have "remdups (rev xs @ [k]) = remdups (filter (\<lambda>x. x \<noteq> k) (rev xs)) @ [k]"
    by (simp add: remdups_split)
  also have "remdups (filter (\<lambda>x. x \<noteq> k) (rev xs)) = filter (\<lambda>x. x \<noteq> k) (rev xs)"
    using assms by (simp add: distinct_remdups_id)
  finally show ?thesis using assms
    by (simp add: mtf_def remove1_filter_distinct rev_filter)
qed

lemma remdups_remdups_append: "remdups (remdups A @ ks) = remdups (A @ ks)"
  by (simp add: remdups_split[of _ ks] remdups_filter remdups_remdups)

lemma fold_mtf_remdups: "distinct xs \<Longrightarrow> fold mtf ks xs = rev (remdups (rev xs @ ks))"
proof (induction ks arbitrary: xs)
  case Nil
  then show ?case by (simp add: distinct_remdups_id)
next
  case (Cons k ks)
  have d: "distinct (mtf k xs)" using Cons.prems by (simp add: mtf_def)
  have r: "rev (mtf k xs) = remdups (rev xs @ [k])"
    by (simp only: mtf_remdups[OF Cons.prems, of k] rev_rev_ident)
  have "fold mtf (k # ks) xs = rev (remdups (rev (mtf k xs) @ ks))"
    using Cons.IH[OF d] by simp
  also have "\<dots> = rev (remdups (remdups (rev xs @ [k]) @ ks))"
    by (simp only: r)
  also have "\<dots> = rev (remdups ((rev xs @ [k]) @ ks))"
    by (simp only: remdups_remdups_append)
  finally show ?case by simp
qed

lemma run_c_append: "run_c c (xs @ ys) = run_c (run_c c xs) ys"
  by (induction xs arbitrary: c) simp_all

lemma lru_new_no_purge:
  assumes "no_purge (effects (new_cache ttl cap) ops)"
  shows "lru (run_c (new_cache ttl cap :: 'v ttl_cache) ops) =
         take (nat cap) (rev (remdups (touched (effects (new_cache ttl cap :: 'v ttl_cache) ops))))"
  using lru_run_no_purge[OF inv_c_new assms] fold_mtf_remdups[of "[]"]
  by (simp add: new_cache_def)

lemma size_bound:
  "map_size (run_c (new_cache ttl cap) ops) \<le> nat cap"
  using run_c_inv[OF inv_c_new, of ttl cap ops]
  by (simp add: inv_c_def map_size_consistent new_cache_def)

lemma node_literal:
  "(e::'v node)\<lparr>value_n := v, expiresAt := x\<rparr> = \<lparr>value_n = v, expiresAt = x\<rparr>"
  by (cases e) simp

lemma del_c_inv: "inv_c c \<Longrightarrow> inv_c (snd (del_c c k))"
proof -
  assume a: "inv_c c"
  have "length (remove1 k (lru c)) \<le> length (lru c)" by (simp add: length_remove1)
  then show ?thesis using a
    by (auto simp: del_c_def detach_def inv_c_def consistent_def Let_def split: option.splits)
qed

lemma clear_c_inv: "inv_c (clear_c c)"
  by (simp add: clear_c_def inv_c_def consistent_def)

text \<open>After a \<^verbatim>\<open>set\<close> on a cache with room for at least one entry, the key holds the new node.\<close>

lemma set_c_binding:
  assumes "inv_c c" "1 \<le> maxEntries c"
  shows "cmap (set_c c k v ttl now) k =
         Some \<lparr>value_n = v, expiresAt = now + (case ttl of Some t \<Rightarrow> t | None \<Rightarrow> ttlMs c)\<rparr>"
proof (cases "cmap c k")
  case None
  have c: "consistent c" using assms(1) by (simp add: inv_c_def)
  obtain m where m: "nat (maxEntries c) = Suc m" using assms(2) by (cases "nat (maxEntries c)") auto
  show ?thesis using None m by (simp add: set_c_fresh[OF c None])
next
  case (Some e)
  then show ?thesis by (simp add: set_c_existing node_literal)
qed

text \<open>A \<^verbatim>\<open>get\<close> never changes a node: it keeps a binding or deletes it.\<close>

lemma get_c_binding:
  "cmap (snd (get_c c k now)) k' = Some n \<Longrightarrow> cmap c k' = Some n"
  by (auto simp: get_c_def Let_def detach_def split: option.splits if_splits)

lemma gets_binding:
  "\<forall>g \<in> set gs. is_get g \<Longrightarrow> cmap (run_c c gs) k' = Some n \<Longrightarrow> cmap c k' = Some n"
proof (induction gs arbitrary: c)
  case Nil
  then show ?case by simp
next
  case (Cons g gs)
  from Cons.prems(1) obtain k now where g: "g = OpGet k now" by (cases g) auto
  have gs: "\<forall>g \<in> set gs. is_get g" using Cons.prems(1) by simp
  have "cmap (run_c (step_c c g) gs) k' = Some n" using Cons.prems(2) by (simp only: run_c.simps)
  with gs have "cmap (step_c c g) k' = Some n" by (rule Cons.IH)
  then have "cmap (snd (get_c c k now)) k' = Some n" using g by simp
  then show ?case by (rule get_c_binding)
qed

lemma get_c_keeps:
  assumes "cmap c k = Some n" "k' = k \<longrightarrow> \<not> isExpired n now"
  shows "cmap (snd (get_c c k' now)) k = Some n"
  using assms
  by (auto simp: get_c_def Let_def detach_def split: option.splits)

lemma gets_keep:
  assumes "cmap c k = Some n"
    and "\<forall>g \<in> set gs. is_get g \<and> \<not> isExpired n (op_time g)"
  shows "cmap (run_c c gs) k = Some n"
  using assms
proof (induction gs arbitrary: c)
  case Nil
  then show ?case by simp
next
  case (Cons g gs)
  from Cons.prems(2) obtain k' now where g: "g = OpGet k' now" by (cases g) auto
  have gs: "\<forall>g \<in> set gs. is_get g \<and> \<not> isExpired n (op_time g)"
    using Cons.prems(2) by simp
  have "\<not> isExpired n now" using Cons.prems(2) g by simp
  then have "cmap (step_c c g) k = Some n"
    using Cons.prems(1) g by (simp add: get_c_keeps)
  then have "cmap (run_c (step_c c g) gs) k = Some n" using gs by (rule Cons.IH)
  then show ?case by simp
qed

lemma get_then_lookup:
  assumes "inv_c c1"
  shows "(cmap c1 k = None \<longrightarrow> fst (get_c c1 k u) = None) \<and>
         (\<forall>n. cmap c1 k = Some n \<longrightarrow>
            fst (get_c c1 k u) = (if isExpired n u then None else Some (value_n n))) \<and>
         (fst (get_c c1 k u) = None \<longrightarrow>
            cmap (snd (get_c c1 k u)) k = None \<and> k \<notin> set (lru (snd (get_c c1 k u))))"
proof -
  have d: "distinct (lru c1)" and s: "set (lru c1) = dom (cmap c1)"
    using assms by (simp_all add: inv_c_def consistent_def)
  show ?thesis
  proof (cases "cmap c1 k")
    case None
    then have "k \<notin> set (lru c1)" using s by auto
    then show ?thesis using None by (simp add: get_c_absent)
  next
    case (Some n)
    show ?thesis
    proof (cases "isExpired n u")
      case True
      then show ?thesis using Some d by (simp add: get_c_expired)
    next
      case False
      then show ?thesis using Some by (simp add: get_c_hit)
    qed
  qed
qed

text \<open>
  C3. A key stored at clock reading \<open>t\<close> with time to live \<open>d\<close> (the override, or
  the configured \<^verbatim>\<open>ttlMs\<close>), in a cache with room for at least one entry: after any
  number of intervening \<^verbatim>\<open>get\<close> calls (no \<^verbatim>\<open>set\<close>, \<^verbatim>\<open>del\<close> or \<^verbatim>\<open>clear\<close>), none
  of them later than the query, a \<^verbatim>\<open>get\<close> of the key at reading \<open>u\<close> returns the
  stored value when \<open>u < t + d\<close> and absent when \<open>t + d \<le> u\<close>; in the second case the
  entry is gone from the map and from the chain after that call.
\<close>

theorem get_after_set_ttl:
  assumes "inv_c c" and "1 \<le> maxEntries c"
    and "\<forall>g \<in> set gs. is_get g \<and> op_time g \<le> u"
  shows "(let d = (case ttl of Some x \<Rightarrow> x | None \<Rightarrow> ttlMs c);
              c1 = run_c (set_c c k v ttl t) gs;
              r = get_c c1 k u
          in fst r = (if u < t + d then Some v else None) \<and>
             (t + d \<le> u \<longrightarrow> cmap (snd r) k = None \<and> k \<notin> set (lru (snd r))))"
proof -
  let ?d = "case ttl of Some x \<Rightarrow> x | None \<Rightarrow> ttlMs c"
  let ?n = "\<lparr>value_n = v, expiresAt = t + ?d\<rparr>"
  let ?c0 = "set_c c k v ttl t"
  let ?c1 = "run_c ?c0 gs"
  have b0: "cmap ?c0 k = Some ?n" using assms(1,2) by (rule set_c_binding)
  have i1: "inv_c ?c1" using assms(1) by (simp add: set_c_inv run_c_inv)
  note gl = get_then_lookup[OF i1, of k u]
  have gets: "\<forall>g \<in> set gs. is_get g" using assms(3) by simp
  show ?thesis
  proof (cases "u < t + ?d")
    case True
    have "\<forall>g \<in> set gs. is_get g \<and> \<not> isExpired ?n (op_time g)"
      using assms(3) True by (auto simp: isExpired_def)
    then have "cmap ?c1 k = Some ?n" using b0 by (rule gets_keep[rotated])
    then show ?thesis using gl True by (simp add: isExpired_def Let_def)
  next
    case False
    have r: "fst (get_c ?c1 k u) = None"
    proof (cases "cmap ?c1 k")
      case None
      then show ?thesis using gl by simp
    next
      case (Some n')
      then have "cmap ?c0 k = Some n'" using gets by (rule gets_binding[rotated])
      then have "n' = ?n" using b0 by simp
      then show ?thesis using gl Some False by (simp add: isExpired_def)
    qed
    then show ?thesis using gl False by (simp add: Let_def)
  qed
qed

theorem get_after_set_ttl_witness:
  "inv_c (new_cache 60000 2 :: nat ttl_cache) \<and>
   1 \<le> maxEntries (new_cache 60000 2 :: nat ttl_cache) \<and>
   fst (get_c (run_c (set_c (new_cache 60000 2) ''a'' (7::nat) (Some 100) 0) [OpGet ''a'' 50]) ''a'' 99) = Some 7 \<and>
   fst (get_c (run_c (set_c (new_cache 60000 2) ''a'' (7::nat) (Some 100) 0) [OpGet ''a'' 50]) ''a'' 100) = None \<and>
   cmap (snd (get_c (run_c (set_c (new_cache 60000 2) ''a'' (7::nat) (Some 100) 0) [OpGet ''a'' 50]) ''a'' 100)) ''a'' = None"
proof -
  have h1: "inv_c (new_cache 60000 2 :: nat ttl_cache)" by (rule inv_c_new)
  have h2: "1 \<le> maxEntries (new_cache 60000 2 :: nat ttl_cache)" by (simp add: new_cache_def)
  have g1: "\<forall>g \<in> set [OpGet ''a'' 50 :: nat cache_op]. is_get g \<and> op_time g \<le> 99" by simp
  have g2: "\<forall>g \<in> set [OpGet ''a'' 50 :: nat cache_op]. is_get g \<and> op_time g \<le> 100" by simp
  show ?thesis
    using h1 h2
      get_after_set_ttl [OF h1 h2 g1, of "Some 100" "''a''" 7 0]
      get_after_set_ttl [OF h1 h2 g2, of "Some 100" "''a''" 7 0]
    by (simp add: Let_def)
qed

lemma filter_remove1_dead: "\<not> P k \<Longrightarrow> filter P (remove1 k xs) = filter P xs"
  by (induction xs) auto

text \<open>
  C8 (amended). A \<^verbatim>\<open>get\<close> of a key that is not logically present returns absent and
  counts one miss. When the key has no entry, nothing else changes. When an expired entry
  of the key is still stored, that entry is purged from the map and the chain. In both
  cases the other counters, every other binding and the recency order of the live keys
  stay as they are, and every further \<^verbatim>\<open>get\<close> of the key returns absent and changes
  the miss counter only.
\<close>

theorem get_not_present:
  assumes "\<not> present c k now"
  shows "fst (get_c c k now) = None \<and>
     (let c1 = snd (get_c c k now)
      in (cmap c k = None \<longrightarrow> c1 = c\<lparr>misses := misses c + 1\<rparr>) \<and>
         (cmap c k \<noteq> None \<longrightarrow>
            c1 = c\<lparr>lru := remove1 k (lru c), cmap := (cmap c)(k := None),
                   misses := misses c + 1\<rparr>) \<and>
         misses c1 = misses c + 1 \<and> hits c1 = hits c \<and> stores c1 = stores c \<and>
         evictions c1 = evictions c \<and>
         (\<forall>k'. k' \<noteq> k \<longrightarrow> cmap c1 k' = cmap c k') \<and>
         (\<forall>k' t. present c1 k' t = (k' \<noteq> k \<and> present c k' t)) \<and>
         live_keys c1 now = live_keys c now \<and>
         (\<forall>now'. get_c c1 k now' = (None, c1\<lparr>misses := misses c1 + 1\<rparr>)))"
proof (cases "cmap c k")
  case None
  have "filter (\<lambda>k'. k' \<noteq> k \<and> present c k' now) (lru c) = filter (\<lambda>k'. present c k' now) (lru c)"
    using assms by (intro filter_cong) auto
  then show ?thesis using None assms
    by (auto simp: get_c_absent Let_def present_def live_keys_def)
next
  case (Some n)
  then have e: "isExpired n now" using assms by (simp add: present_def)
  have dead: "\<not> (\<lambda>k'. present c k' now) k" using assms by simp
  have f: "filter (\<lambda>k'. present c k' now) (remove1 k (lru c)) = filter (\<lambda>k'. present c k' now) (lru c)"
    using dead by (rule filter_remove1_dead)
  have g: "filter (\<lambda>k'. present (c\<lparr>lru := remove1 k (lru c), cmap := (cmap c)(k := None), misses := misses c + 1\<rparr>) k' now) (remove1 k (lru c))
         = filter (\<lambda>k'. present c k' now) (remove1 k (lru c))"
    using assms by (intro filter_cong) (auto simp: present_def)
  show ?thesis using Some e f g
    by (auto simp: get_c_expired get_c_absent Let_def present_def live_keys_def)
qed

text \<open>
  The claim as stated fails for a key whose expired entry is still stored: the first
  \<^verbatim>\<open>get\<close> removes the entry, so the chain and the size change.
\<close>

theorem get_expired_entry_counterexample:
  "\<not> present one_entry ''a'' 10 \<and>
   lru one_entry = [''a''] \<and> lru (snd (get_c one_entry ''a'' 10)) = [] \<and>
   map_size one_entry = 1 \<and> map_size (snd (get_c one_entry ''a'' 10)) = 0"
  by (simp add: one_entry_def cache_eval)

theorem get_not_present_witness:
  "\<not> present one_entry ''a'' 10 \<and>
   fst (get_c one_entry ''a'' 10) = None \<and>
   misses (snd (get_c one_entry ''a'' 10)) = misses one_entry + 1 \<and>
   live_keys (snd (get_c one_entry ''a'' 10)) 10 = live_keys one_entry 10"
proof -
  have h: "\<not> present one_entry ''a'' 10" by (simp add: one_entry_def cache_eval)
  show ?thesis using h get_not_present [OF h] unfolding Let_def by blast
qed

lemma set_op_key: "step_c c (set_op x) = set_c c (fst x) (fst (snd x)) (fst (snd (snd x))) (snd (snd (snd x)))"
  by (cases x) auto

lemma node_of_eq:
  "node_of ttl x = \<lparr>value_n = fst (snd x),
      expiresAt = snd (snd (snd x)) + (case fst (snd (snd x)) of Some t \<Rightarrow> t | None \<Rightarrow> ttl)\<rparr>"
  by (cases x) auto

text \<open>Insertions of distinct keys that fit into the cache: nothing is evicted.\<close>

lemma run_sets_fitting:
  assumes "distinct (map fst xs)" "length xs \<le> nat cap"
  shows "run_c (new_cache ttl cap) (sets_of xs) =
         \<lparr>ttlMs = ttl, maxEntries = cap,
          cmap = map_of (map (\<lambda>x. (fst x, node_of ttl x)) xs),
          lru = rev (map fst xs),
          hits = 0, misses = 0, stores = length xs, evictions = 0\<rparr>"
  using assms
proof (induction xs rule: rev_induct)
  case Nil
  then show ?case by (simp add: sets_of_def new_cache_def)
next
  case (snoc x xs)
  let ?c = "\<lparr>ttlMs = ttl, maxEntries = cap,
          cmap = map_of (map (\<lambda>x. (fst x, node_of ttl x)) xs),
          lru = rev (map fst xs),
          hits = 0, misses = 0, stores = length xs, evictions = 0::nat\<rparr>"
  have ih: "run_c (new_cache ttl cap) (sets_of xs) = ?c"
    using snoc by simp
  have fresh: "fst x \<notin> fst ` set xs" using snoc.prems(1) by auto
  then have none: "cmap ?c (fst x) = None"
    by (simp add: map_of_eq_None_iff image_image)
  have cons: "consistent ?c"
    using snoc.prems(1) by (auto simp: consistent_def dom_map_of_conv_image_fst image_image)
  have len: "Suc (length xs) \<le> nat cap" using snoc.prems(2) by simp
  have tk: "take (nat cap) (fst x # rev (map fst xs)) = fst x # rev (map fst xs)"
    using len by simp
  have dm: "dom ((map_of (map (\<lambda>x. (fst x, node_of ttl x)) xs))(fst x \<mapsto> n))
            \<subseteq> set (fst x # rev (map fst xs))" for n
    by (auto simp: dom_map_of_conv_image_fst image_image)
  have rs: "((map_of (map (\<lambda>x. (fst x, node_of ttl x)) xs))(fst x \<mapsto> n)) |` set (fst x # rev (map fst xs))
            = (map_of (map (\<lambda>x. (fst x, node_of ttl x)) xs))(fst x \<mapsto> n)" for n
  proof -
    have "map_of (map (\<lambda>x. (fst x, node_of ttl x)) xs) xa = None" if "xa \<notin> fst ` set xs" for xa
      using that by (simp add: map_of_eq_None_iff image_image)
    then show ?thesis by (auto simp: restrict_map_def fun_eq_iff)
  qed
  have mo: "map_of (map (\<lambda>x. (fst x, node_of ttl x)) (xs @ [x]))
            = (map_of (map (\<lambda>x. (fst x, node_of ttl x)) xs))(fst x \<mapsto> node_of ttl x)"
    using none by (auto simp: map_add_def fun_eq_iff split: option.splits)
  have "run_c (new_cache ttl cap) (sets_of (xs @ [x])) = step_c ?c (set_op x)"
    using ih by (simp add: sets_of_def run_c_append)
  also have "\<dots> = set_c ?c (fst x) (fst (snd x)) (fst (snd (snd x))) (snd (snd (snd x)))"
    by (rule set_op_key)
  also have "\<dots> = ?c\<lparr>cmap := ((cmap ?c)(fst x \<mapsto> \<lparr>value_n = fst (snd x),
                 expiresAt = snd (snd (snd x)) + (case fst (snd (snd x)) of Some t \<Rightarrow> t | None \<Rightarrow> ttlMs ?c)\<rparr>))
                     |` set (take (nat (maxEntries ?c)) (fst x # lru ?c)),
           lru := take (nat (maxEntries ?c)) (fst x # lru ?c),
           evictions := evictions ?c + (Suc (length (lru ?c)) - nat (maxEntries ?c)),
           stores := stores ?c + 1\<rparr>"
    by (rule set_c_fresh[OF cons none])
  also have "\<dots> = ?c\<lparr>cmap := (map_of (map (\<lambda>x. (fst x, node_of ttl x)) xs))(fst x \<mapsto> node_of ttl x),
                      lru := fst x # rev (map fst xs),
                      evictions := 0, stores := Suc (length xs)\<rparr>"
    using len tk rs[of "node_of ttl x"]
    by (simp add: node_of_eq del: take_Cons' cong: option.case_cong)
  finally have fin: "run_c (new_cache ttl cap) (sets_of (xs @ [x])) =
      ?c\<lparr>cmap := (map_of (map (\<lambda>x. (fst x, node_of ttl x)) xs))(fst x \<mapsto> node_of ttl x),
         lru := fst x # rev (map fst xs), evictions := 0, stores := Suc (length xs)\<rparr>" .
  show ?case unfolding fin mo by (auto simp: fun_eq_iff)
qed

text \<open>
  C9. Inserting \<open>C + 1\<close> distinct keys into a new cache of capacity \<open>C\<close>, with no
  reads in between, evicts exactly the key inserted first: one eviction is counted, the
  first key has no entry, and the other \<open>C\<close> keys are stored in order of insertion,
  each with the node its \<^verbatim>\<open>set\<close> gave it.
\<close>

theorem insert_beyond_capacity_evicts_first:
  assumes "distinct (map fst xs)" and "length xs = Suc C"
  shows "(let c = run_c (new_cache ttl (int C)) (sets_of xs)
          in lru c = rev (map fst (tl xs)) \<and>
             dom (cmap c) = set (map fst (tl xs)) \<and>
             cmap c (fst (hd xs)) = None \<and>
             evictions c = 1 \<and>
             (\<forall>x \<in> set (tl xs). cmap c (fst x) = Some (node_of ttl x)))"
proof -
  obtain ys y where xs: "xs = ys @ [y]" using assms(2) by (cases xs rule: rev_cases) auto
  have lys: "length ys = C" using assms(2) xs by simp
  have dys: "distinct (map fst ys)" using assms(1) xs by simp
  let ?m = "map_of (map (\<lambda>x. (fst x, node_of ttl x)) ys)"
  let ?c = "\<lparr>ttlMs = ttl, maxEntries = int C, cmap = ?m,
          lru = rev (map fst ys),
          hits = 0, misses = 0, stores = length ys, evictions = 0::nat\<rparr>"
  have st: "run_c (new_cache ttl (int C)) (sets_of ys) = ?c"
    using run_sets_fitting[OF dys, of "int C" ttl] lys by simp
  have fresh: "fst y \<notin> fst ` set ys" using assms(1) xs by auto
  then have none: "cmap ?c (fst y) = None"
    by (simp add: map_of_eq_None_iff image_image)
  have cons: "consistent ?c"
    using dys by (auto simp: consistent_def dom_map_of_conv_image_fst image_image)
  let ?keep = "fst y # rev (map fst (tl ys))"
  have tk: "take C (fst y # rev (map fst ys)) = rev (map fst (tl xs))"
  proof (cases ys)
    case Nil
    then show ?thesis using lys xs by simp
  next
    case (Cons a as)
    then have "length as + 1 = C" using lys by simp
    then show ?thesis using Cons xs by (cases C) auto
  qed
  have fin: "run_c (new_cache ttl (int C)) (sets_of xs) =
        ?c\<lparr>cmap := (?m(fst y \<mapsto> node_of ttl y)) |` set (rev (map fst (tl xs))),
           lru := rev (map fst (tl xs)),
           evictions := 1, stores := Suc (length ys)\<rparr>"
  proof -
    have "run_c (new_cache ttl (int C)) (sets_of xs) = step_c ?c (set_op y)"
      using st xs by (simp add: sets_of_def run_c_append)
    also have "\<dots> = set_c ?c (fst y) (fst (snd y)) (fst (snd (snd y))) (snd (snd (snd y)))"
      by (rule set_op_key)
    also have "\<dots> = ?c\<lparr>cmap := ((cmap ?c)(fst y \<mapsto> \<lparr>value_n = fst (snd y),
                 expiresAt = snd (snd (snd y)) + (case fst (snd (snd y)) of Some t \<Rightarrow> t | None \<Rightarrow> ttlMs ?c)\<rparr>))
                     |` set (take (nat (maxEntries ?c)) (fst y # lru ?c)),
           lru := take (nat (maxEntries ?c)) (fst y # lru ?c),
           evictions := evictions ?c + (Suc (length (lru ?c)) - nat (maxEntries ?c)),
           stores := stores ?c + 1\<rparr>"
      by (rule set_c_fresh[OF cons none])
    also have "\<dots> = ?c\<lparr>cmap := (?m(fst y \<mapsto> node_of ttl y)) |` set (rev (map fst (tl xs))),
           lru := rev (map fst (tl xs)),
           evictions := 1, stores := Suc (length ys)\<rparr>"
      using lys tk by (simp add: node_of_eq del: take_Cons' cong: option.case_cong)
    finally show ?thesis .
  qed
  have keys: "set (map fst (tl xs)) \<subseteq> insert (fst y) (fst ` set ys)"
    using xs by (cases ys) auto
  have d_all: "distinct (map fst xs)" by (rule assms(1))
  have hd_out: "fst (hd xs) \<notin> set (map fst (tl xs))"
    using d_all assms(2) by (cases xs) auto
  have bind: "(?m(fst y \<mapsto> node_of ttl y)) (fst x) = Some (node_of ttl x)" if "x \<in> set xs" for x
  proof (cases "x = y")
    case True
    then show ?thesis by simp
  next
    case False
    then have xin: "x \<in> set ys" using that xs by simp
    then have ne: "fst x \<noteq> fst y" using fresh by (metis imageI)
    have "?m (fst x) = Some (node_of ttl x)"
      using dys xin by (intro map_of_is_SomeI) (auto simp: distinct_map comp_def)
    then show ?thesis using ne by simp
  qed
  have dm: "dom (?m(fst y \<mapsto> node_of ttl y)) = insert (fst y) (fst ` set ys)"
    by (auto simp: dom_map_of_conv_image_fst image_image)
  have dom_eq: "dom ((?m(fst y \<mapsto> node_of ttl y)) |` set (map fst (tl xs))) = set (map fst (tl xs))"
    by (simp only: dom_restrict dm Int_absorb1[OF keys])
  have tl_in: "set (tl xs) \<subseteq> set xs" by (cases xs) auto
  let ?final = "(?m(fst y \<mapsto> node_of ttl y)) |` set (map fst (tl xs))"
  have c3: "?final (fst (hd xs)) = None"
    using hd_out by (rule restrict_out)
  have c5: "?final (fst x) = Some (node_of ttl x)" if "x \<in> set (tl xs)" for x
  proof -
    have "fst x \<in> set (map fst (tl xs))" using that by simp
    then have "?final (fst x) = (?m(fst y \<mapsto> node_of ttl y)) (fst x)" by (rule restrict_in)
    also have "\<dots> = Some (node_of ttl x)" using that tl_in by (intro bind) blast
    finally show ?thesis .
  qed
  have c5': "\<forall>x \<in> set (tl xs). ?final (fst x) = Some (node_of ttl x)"
    using c5 by blast
  show ?thesis
    unfolding Let_def fin
    using dom_eq c3 c5' by (simp del: fun_upd_apply map_map)
qed

theorem insert_beyond_capacity_evicts_first_witness:
  "distinct (map fst [(''a'', 1::nat, None, 0::int), (''b'', 2, None, 1), (''c'', 3, None, 2)]) \<and>
   length [(''a'', 1::nat, None::int option, 0::int), (''b'', 2, None, 1), (''c'', 3, None, 2)] = Suc 2 \<and>
   lru (run_c (new_cache 60000 (int 2))
         (sets_of [(''a'', 1::nat, None, 0), (''b'', 2, None, 1), (''c'', 3, None, 2)])) = [''c'', ''b''] \<and>
   cmap (run_c (new_cache 60000 (int 2))
         (sets_of [(''a'', 1::nat, None, 0), (''b'', 2, None, 1), (''c'', 3, None, 2)])) ''a'' = None \<and>
   evictions (run_c (new_cache 60000 (int 2))
         (sets_of [(''a'', 1::nat, None, 0), (''b'', 2, None, 1), (''c'', 3, None, 2)])) = 1"
proof -
  let ?xs = "[(''a'', 1::nat, None::int option, 0::int), (''b'', 2, None, 1), (''c'', 3, None, 2)]"
  have h1: "distinct (map fst ?xs)" by simp
  have h2: "length ?xs = Suc 2" by simp
  show ?thesis
    using h1 h2 insert_beyond_capacity_evicts_first [OF h1 h2, of 60000] unfolding Let_def by simp
qed

lemma set_c_evicts_tail:
  assumes "inv_c c" and "cmap c k = None"
    and "length (lru c) = nat (maxEntries c)" and "0 < maxEntries c"
  shows "lru (set_c c k v ttl now) = k # butlast (lru c) \<and>
         cmap (set_c c k v ttl now) (last (lru c)) = None \<and>
         evictions (set_c c k v ttl now) = evictions c + 1 \<and>
         length (lru (set_c c k v ttl now)) = nat (maxEntries c)"
proof -
  have cons: "consistent c" using assms(1) by (simp add: inv_c_def)
  have d: "distinct (lru c)" and dm: "set (lru c) = dom (cmap c)"
    using cons by (simp_all add: consistent_def)
  obtain m where m: "nat (maxEntries c) = Suc m" using assms(4) by (cases "nat (maxEntries c)") auto
  have ne: "lru c \<noteq> []" using assms(3) m by auto
  have tk: "take (nat (maxEntries c)) (k # lru c) = k # butlast (lru c)"
    using assms(3) m by (simp add: butlast_conv_take)
  have nk: "k \<notin> set (lru c)" using assms(2) dm by auto
  have "last (lru c) \<in> set (lru c)" using ne by simp
  then have lk: "last (lru c) \<noteq> k" using nk by auto
  have "distinct (butlast (lru c) @ [last (lru c)])" using d ne by simp
  then have lb: "last (lru c) \<notin> set (butlast (lru c))" by simp
  have out: "last (lru c) \<notin> set (k # butlast (lru c))" using lk lb by simp
  have len: "length (k # butlast (lru c)) = nat (maxEntries c)" using assms(3) m by simp
  have ev: "Suc (length (lru c)) - nat (maxEntries c) = 1" using assms(3) by simp
  show ?thesis
    unfolding set_c_fresh[OF cons assms(2)] tk
    using out lk len ev by (simp add: restrict_out del: set_simps)
qed

lemma present_stored: "present c k now \<Longrightarrow> consistent c \<Longrightarrow> k \<in> set (lru c)"
  by (auto simp: present_def consistent_def split: option.splits)

text \<open>
  C2 (amended). For every history of \<^verbatim>\<open>set\<close> and \<^verbatim>\<open>get\<close> calls on a new cache of
  capacity \<open>C \<ge> 0\<close>: the number of stored entries is at most \<open>C\<close>; as long as no
  \<^verbatim>\<open>get\<close> has purged an expired entry, the stored keys are exactly the at most \<open>C\<close>
  most recently touched keys (a \<^verbatim>\<open>set\<close> and a \<^verbatim>\<open>get\<close> that hits touch their key),
  in that order, and the logically present keys are those of them that have not expired;
  a logically present key is always a stored key; and a \<^verbatim>\<open>set\<close> of a new key into a
  full cache evicts the least recently used entry, the tail of the chain, before it
  returns.
\<close>

theorem capacity_and_recency:
  assumes "0 \<le> cap"
  shows "(let c = run_c (new_cache ttl cap) ops;
              es = effects (new_cache ttl cap) ops
          in int (map_size c) \<le> cap \<and>
             (no_purge es \<longrightarrow>
                lru c = take (nat cap) (rev (remdups (touched es))) \<and>
                dom (cmap c) = set (lru c) \<and>
                (\<forall>now. live_keys c now =
                   filter (\<lambda>k. present c k now) (take (nat cap) (rev (remdups (touched es)))))) \<and>
             (\<forall>k now. present c k now \<longrightarrow> k \<in> set (lru c)) \<and>
             (\<forall>k v ttlOverrideMs now.
                cmap c k = None \<and> int (map_size c) = cap \<and> 0 < cap \<longrightarrow>
                  lru (set_c c k v ttlOverrideMs now) = k # butlast (lru c) \<and>
                  cmap (set_c c k v ttlOverrideMs now) (last (lru c)) = None \<and>
                  evictions (set_c c k v ttlOverrideMs now) = evictions c + 1 \<and>
                  int (map_size (set_c c k v ttlOverrideMs now)) = cap))"
proof -
  let ?c = "run_c (new_cache ttl cap) ops"
  let ?es = "effects (new_cache ttl cap) ops"
  have i: "inv_c ?c" using inv_c_new by (rule run_c_inv)
  then have cons: "consistent ?c" by (simp add: inv_c_def)
  have mx: "maxEntries ?c = cap" by (simp add: new_cache_def)
  have sz: "map_size ?c = length (lru ?c)" using cons by (rule map_size_consistent)
  have a: "int (map_size ?c) \<le> cap"
    using size_bound[of ttl cap ops] assms by simp
  have b: "lru ?c = take (nat cap) (rev (remdups (touched ?es))) \<and>
           dom (cmap ?c) = set (lru ?c) \<and>
           (\<forall>now. live_keys ?c now =
                   filter (\<lambda>k. present ?c k now) (take (nat cap) (rev (remdups (touched ?es)))))"
    if np: "no_purge ?es"
  proof -
    have l: "lru ?c = take (nat cap) (rev (remdups (touched ?es)))"
      using np by (rule lru_new_no_purge)
    show ?thesis using l cons by (simp add: consistent_def live_keys_def)
  qed
  have c: "\<forall>k now. present ?c k now \<longrightarrow> k \<in> set (lru ?c)"
    using cons present_stored by blast
  have d: "lru (set_c ?c k v o' now) = k # butlast (lru ?c) \<and>
           cmap (set_c ?c k v o' now) (last (lru ?c)) = None \<and>
           evictions (set_c ?c k v o' now) = evictions ?c + 1 \<and>
           int (map_size (set_c ?c k v o' now)) = cap"
    if h: "cmap ?c k = None \<and> int (map_size ?c) = cap \<and> 0 < cap" for k v o' now
  proof -
    have len: "length (lru ?c) = nat (maxEntries ?c)" using h sz mx by auto
    have pos: "0 < maxEntries ?c" using h mx by simp
    note e = set_c_evicts_tail[OF i conjunct1[OF h] len pos, of v o' now]
    have e1: "lru (set_c ?c k v o' now) = k # butlast (lru ?c)" using e by blast
    have e2: "cmap (set_c ?c k v o' now) (last (lru ?c)) = None" using e by blast
    have e3: "evictions (set_c ?c k v o' now) = evictions ?c + 1" using e by blast
    have e4: "length (lru (set_c ?c k v o' now)) = nat (maxEntries ?c)" using e by blast
    have i': "inv_c (set_c ?c k v o' now)" using i by (rule set_c_inv)
    then have "consistent (set_c ?c k v o' now)" by (simp add: inv_c_def)
    then have "map_size (set_c ?c k v o' now) = length (lru (set_c ?c k v o' now))"
      by (rule map_size_consistent)
    then have "int (map_size (set_c ?c k v o' now)) = int (nat (maxEntries ?c))"
      by (simp only: e4)
    also have "\<dots> = cap" using pos mx by simp
    finally have e5: "int (map_size (set_c ?c k v o' now)) = cap" .
    show ?thesis using e1 e2 e3 e5 by blast
  qed
  show ?thesis
    unfolding Let_def using a b c d by blast
qed

theorem capacity_and_recency_witness:
  "(0::int) \<le> 2 \<and>
   int (map_size (run_c (new_cache 60000 2) hit_then_insert)) \<le> 2 \<and>
   no_purge (effects (new_cache 60000 2) hit_then_insert) \<and>
   lru (run_c (new_cache 60000 2) hit_then_insert) = [''c'', ''a'']"
proof -
  have h: "(0::int) \<le> 2" by simp
  have np: "no_purge (effects (new_cache 60000 2) hit_then_insert)"
    by (simp add: hit_then_insert_def cache_eval)
  have t: "touched (effects (new_cache 60000 2) hit_then_insert) = [''a'', ''b'', ''a'', ''c'']"
    by (simp add: hit_then_insert_def cache_eval)
  have tk: "take (nat 2) (rev (remdups [''a'', ''b'', ''a'', ''c''])) = [''c'', ''a'']"
    by (simp add: numeral_2_eq_2)
  show ?thesis
    using h np capacity_and_recency [OF h, of 60000 hit_then_insert] unfolding Let_def t tk by blast
qed

text \<open>
  The claim as stated fails once entries expire. In the history below, with capacity 3,
  key \<open>a\<close> is evicted while it is live, the expired entry of \<open>b\<close> is purged by a
  \<^verbatim>\<open>get\<close>, and \<open>d\<close> is inserted. At clock reading 11 the logically present keys
  are \<open>d\<close> and \<open>e\<close>; the three most recently touched unexpired keys are \<open>d\<close>,
  \<open>e\<close> and \<open>a\<close>, and the unexpired ones among the three most recently touched keys
  are \<open>d\<close> alone.
\<close>

theorem retained_keys_counterexample:
  "set (live_keys (run_c (new_cache 1000 3) purge_then_insert) 11)
     \<noteq> set (spec_retained_first 3 1000 purge_then_insert 11) \<and>
   set (live_keys (run_c (new_cache 1000 3) purge_then_insert) 11)
     \<noteq> set (spec_retained_among 3 1000 purge_then_insert 11)"
proof -
  have l: "live_keys (run_c (new_cache 1000 3) purge_then_insert) 11 = [''d'', ''e'']"
    by (simp add: purge_then_insert_def cache_eval)
  have a: "spec_retained_first 3 1000 purge_then_insert 11 = [''d'', ''e'', ''a'']"
    by (simp add: spec_retained_first_def touched_order_def purge_then_insert_def unexpired_def)
  have b: "spec_retained_among 3 1000 purge_then_insert 11 = [''d'']"
    by (simp add: spec_retained_among_def touched_order_def purge_then_insert_def unexpired_def)
  have a_in: "''a'' \<in> set (spec_retained_first 3 1000 purge_then_insert 11)"
    unfolding a by simp
  have a_out: "''a'' \<notin> set (live_keys (run_c (new_cache 1000 3) purge_then_insert) 11)"
    unfolding l by simp
  have e_in: "''e'' \<in> set (live_keys (run_c (new_cache 1000 3) purge_then_insert) 11)"
    unfolding l by simp
  have e_out: "''e'' \<notin> set (spec_retained_among 3 1000 purge_then_insert 11)"
    unfolding b by simp
  show ?thesis using a_in a_out e_in e_out by metis
qed

section \<open>Properties of the key derivation\<close>

lemma split_at_first:
  assumes "c \<notin> set xs" "c \<notin> set us" "xs @ c # ys = us @ c # vs"
  shows "xs = us \<and> ys = vs"
proof -
  have a: "takeWhile (\<lambda>x. x \<noteq> c) (xs @ c # ys) = xs" using assms(1)
    by (induction xs) auto
  have b: "takeWhile (\<lambda>x. x \<noteq> c) (us @ c # vs) = us" using assms(2)
    by (induction us) auto
  have "xs = us" using a b assms(3) by simp
  then show ?thesis using assms(3) by simp
qed

lemma path_query_split:
  assumes "CHR ''?'' \<notin> set p1" "CHR ''?'' \<notin> set p2"
    and "q1 = [] \<or> hd q1 = CHR ''?''" "q2 = [] \<or> hd q2 = CHR ''?''"
    and "p1 @ q1 = p2 @ q2"
  shows "p1 = p2 \<and> q1 = q2"
proof (cases q1)
  case Nil
  show ?thesis
  proof (cases q2)
    case Nil
    then show ?thesis using \<open>q1 = []\<close> assms(5) by simp
  next
    case (Cons a as)
    then have "a = CHR ''?''" using assms(4) by simp
    then have "CHR ''?'' \<in> set p1" using Cons \<open>q1 = []\<close> assms(5) by simp
    then show ?thesis using assms(1) by simp
  qed
next
  case (Cons a as)
  then have a: "a = CHR ''?''" using assms(3) by simp
  show ?thesis
  proof (cases q2)
    case Nil
    then have "CHR ''?'' \<in> set p2" using Cons a assms(5) by (metis append_Nil2 in_set_conv_decomp)
    then show ?thesis using assms(2) by simp
  next
    case (Cons b bs)
    then have b: "b = CHR ''?''" using assms(4) by simp
    have "p1 @ CHR ''?'' # as = p2 @ CHR ''?'' # bs"
      using assms(5) \<open>q1 = a # as\<close> Cons a b by simp
    then have "p1 = p2 \<and> as = bs" using assms(1,2) by (intro split_at_first)
    then show ?thesis using \<open>q1 = a # as\<close> Cons a b by simp
  qed
qed

lemma hashString_format:
  assumes "hex_digest X"
  shows "length (hashString X s) = 16 \<and> (\<forall>c \<in> set (hashString X s). is_hex c)"
proof -
  have l: "length (sha256hex X s) = 64" and h: "\<forall>c \<in> set (sha256hex X s). is_hex c"
    using assms by (simp_all add: hex_digest_def)
  have "set (take 16 (sha256hex X s)) \<subseteq> set (sha256hex X s)" by (rule set_take_subset)
  then show ?thesis using l h by (auto simp: hashString_def)
qed

lemma not_hex_n: "\<not> is_hex (CHR ''n'')"
  by (simp add: is_hex_def)

text \<open>A hashed credential part never ends like the part for no credential.\<close>

lemma none_vs_hashed:
  assumes "length t = 16" "\<forall>c \<in> set t. is_hex c"
  shows "P1 @ '':auth:none'' \<noteq> P2 @ '':auth:'' @ t"
proof
  assume eq: "P1 @ '':auth:none'' = P2 @ '':auth:'' @ t"
  have "rev (P1 @ '':auth:none'') ! 1 = rev (P2 @ '':auth:'' @ t) ! 1" using eq by simp
  moreover have "rev (P1 @ '':auth:none'') ! 1 = CHR ''n''" by simp
  moreover have "rev (P2 @ '':auth:'' @ t) ! 1 = rev t ! 1"
    using assms(1) by (simp add: nth_append)
  moreover have "rev t ! 1 \<in> set t"
    using assms(1) by (metis length_rev nth_mem one_less_numeral_iff semiring_norm(76) set_rev)
  ultimately have "is_hex (CHR ''n'')" using assms(2) by metis
  then show False using not_hex_n by simp
qed

lemma utf8_of_latin1_Nil [simp]: "utf8_of_latin1 s = [] \<longleftrightarrow> s = []"
  by (cases s) (simp_all add: utf8_of_latin1_def Let_def)

lemma authHash_cases:
  "authHash X cfg a =
     (if credential_bytes cfg a = [] then ''auth:none''
      else ''auth:'' @ hashString X (credential_bytes cfg a))"
  by (simp add: authHash_def credential_bytes_def)

lemma auth_part_split:
  assumes "hex_digest X" and "P1 @ '':'' @ authHash X cfg a1 = P2 @ '':'' @ authHash X cfg a2"
  shows "P1 = P2 \<and> authHash X cfg a1 = authHash X cfg a2"
proof -
  let ?c1 = "credential_bytes cfg a1" and ?c2 = "credential_bytes cfg a2"
  note f1 = hashString_format[OF assms(1), of ?c1]
  note f2 = hashString_format[OF assms(1), of ?c2]
  show ?thesis
  proof (cases "?c1 = []")
    case True
    show ?thesis
    proof (cases "?c2 = []")
      case True
      then show ?thesis using \<open>?c1 = []\<close> assms(2) by (simp add: authHash_cases)
    next
      case False
      have "P1 @ '':auth:none'' = P2 @ '':auth:'' @ hashString X ?c2"
        using assms(2) True False by (simp add: authHash_cases)
      then show ?thesis using none_vs_hashed[of "hashString X ?c2" P1 P2] f2 by blast
    qed
  next
    case False
    show ?thesis
    proof (cases "?c2 = []")
      case True
      have "P2 @ '':auth:none'' = P1 @ '':auth:'' @ hashString X ?c1"
        using assms(2) True False by (simp add: authHash_cases)
      then show ?thesis using none_vs_hashed[of "hashString X ?c1" P2 P1] f1 by blast
    next
      case c2: False
      have len: "length ('':'' @ authHash X cfg a1) = length ('':'' @ authHash X cfg a2)"
        using False c2 f1 f2 by (simp add: authHash_cases)
      have "P1 = P2 \<and> '':'' @ authHash X cfg a1 = '':'' @ authHash X cfg a2"
        using assms(2) len by (metis append_eq_append_conv)
      then show ?thesis by simp
    qed
  qed
qed

lemma bodyKey_length:
  assumes "hex_digest X"
  shows "length (bodyKey X m b) = (if m = ''GET'' then 0 else 65)"
  using assms by (simp add: bodyKey_def hashBody_def hex_digest_def)

lemma cacheKey_injective:
  assumes "hex_digest X" and "target_ok m1 p1 q1" and "target_ok m2 p2 q2"
    and eq: "cacheKey X cfg m1 p1 q1 a1 b1 = cacheKey X cfg m2 p2 q2 a2 b2"
  shows "m1 = m2 \<and> p1 = p2 \<and> q1 = q2 \<and> authHash X cfg a1 = authHash X cfg a2 \<and>
         (m1 \<noteq> ''GET'' \<longrightarrow> sha256hex X b1 = sha256hex X b2)"
proof -
  have c1: "CHR '':'' \<notin> set m1" and c2: "CHR '':'' \<notin> set m2"
    using assms(2,3) by (simp_all add: target_ok_def)
  let ?R1 = "p1 @ q1 @ '':'' @ authHash X cfg a1 @ bodyKey X m1 b1"
  let ?R2 = "p2 @ q2 @ '':'' @ authHash X cfg a2 @ bodyKey X m2 b2"
  have "m1 @ CHR '':'' # ?R1 = m2 @ CHR '':'' # ?R2"
    using eq by (simp add: cacheKey_def)
  then have m: "m1 = m2" and r: "?R1 = ?R2"
    using split_at_first[OF c1 c2] by blast+
  have bl: "length (bodyKey X m1 b1) = length (bodyKey X m2 b2)"
    using m bodyKey_length[OF assms(1)] by simp
  have "((p1 @ q1) @ '':'' @ authHash X cfg a1) @ bodyKey X m1 b1
        = ((p2 @ q2) @ '':'' @ authHash X cfg a2) @ bodyKey X m2 b2"
    using r by simp
  then have front: "(p1 @ q1) @ '':'' @ authHash X cfg a1 = (p2 @ q2) @ '':'' @ authHash X cfg a2"
    and bk: "bodyKey X m1 b1 = bodyKey X m2 b2"
    using bl by (metis append_eq_append_conv)+
  have pq: "p1 @ q1 = p2 @ q2" and au: "authHash X cfg a1 = authHash X cfg a2"
    using auth_part_split[OF assms(1) front] by blast+
  have "p1 = p2 \<and> q1 = q2"
    using assms(2,3) pq by (intro path_query_split) (simp_all add: target_ok_def)
  moreover have "m1 \<noteq> ''GET'' \<longrightarrow> sha256hex X b1 = sha256hex X b2"
    using bk m by (auto simp: bodyKey_def hashBody_def split: if_splits)
  ultimately show ?thesis using m au by blast
qed

lemma authHash_equal_iff:
  assumes "hex_digest X"
  shows "authHash X cfg a1 = authHash X cfg a2 \<longleftrightarrow>
         (credential_bytes cfg a1 = [] \<and> credential_bytes cfg a2 = []) \<or>
         (credential_bytes cfg a1 \<noteq> [] \<and> credential_bytes cfg a2 \<noteq> [] \<and>
          take 16 (sha256hex X (credential_bytes cfg a1)) = take 16 (sha256hex X (credential_bytes cfg a2)))"
proof -
  note f1 = hashString_format[OF assms, of "credential_bytes cfg a1"]
  note f2 = hashString_format[OF assms, of "credential_bytes cfg a2"]
  have n1: "''auth:none'' \<noteq> ''auth:'' @ hashString X s" for s
  proof
    assume "''auth:none'' = ''auth:'' @ hashString X s"
    then have "length ''auth:none'' = length (''auth:'' @ hashString X s)" by (rule arg_cong)
    then show False using hashString_format[OF assms, of s] by simp
  qed
  have n2: "''auth:'' @ hashString X s \<noteq> ''auth:none''" for s
    using n1[of s] by metis
  show ?thesis
    using n1 n2 by (simp add: authHash_cases) (auto simp: hashString_def)
qed

lemma hexdigit_is_hex: "is_hex (hexdigit d)"
proof -
  have "d mod 16 < length ''0123456789abcdef''" by simp
  then have "''0123456789abcdef'' ! (d mod 16) \<in> set ''0123456789abcdef''" by (rule nth_mem)
  then show ?thesis unfolding is_hex_def hexdigit_def .
qed

lemma sample_digest_format: "hex_digest (extern_with sample_digest)"
proof -
  have len: "length (sample_digest s) = 64" for s by (simp add: sample_digest_def)
  have hex: "is_hex c" if "c \<in> set (sample_digest s)" for c s
  proof -
    let ?ds = "concat (map (\<lambda>c. [hexdigit ((of_char c :: nat) div 16), hexdigit (of_char c)]) s)"
    have "c \<in> set (?ds @ replicate 64 (CHR ''0''))"
      using that unfolding sample_digest_def by (rule in_set_takeD)
    then consider "c \<in> set ?ds" | "c = CHR ''0''" by auto
    then show ?thesis
    proof cases
      case 1
      then show ?thesis using hexdigit_is_hex by auto
    next
      case 2
      then show ?thesis by (simp add: is_hex_def)
    qed
  qed
  show ?thesis using len hex by (simp add: hex_digest_def extern_with_def)
qed

text \<open>
  C6 (amended). The cache key is a function of the method, path, query string,
  credential and body of the request (and of the configured upstream key, which stands
  in for an absent credential); the body enters it as the text that \<^verbatim>\<open>readBody\<close>
  decodes from the received bytes and that is forwarded, not as the bytes. For digests
  in SHA-256's hexadecimal format, well-formed methods, paths and query strings, and
  methods other than \<^verbatim>\<open>HEAD\<close>: two requests derive the same key exactly when they
  agree in method, path and query string, both use no credential or use credentials
  whose digests agree in their first 16 characters, and, unless the method is
  \<^verbatim>\<open>GET\<close>, their decoded bodies have the same digest. The body component of the key
  is empty for \<^verbatim>\<open>GET\<close>, and a colon followed by the digest of the decoded body
  otherwise.
\<close>

theorem cache_key_derivation:
  assumes "hex_digest X" and "request_ok r1" and "request_ok r2"
    and "req_method r1 \<noteq> ''HEAD''" and "req_method r2 \<noteq> ''HEAD''"
  shows "(request_key X cfg r1 = request_key X cfg r2 \<longleftrightarrow>
            req_method r1 = req_method r2 \<and> pathname r1 = pathname r2 \<and> search r1 = search r2 \<and>
            ((credential_bytes cfg (header_or_empty r1 ''authorization'') = [] \<and>
              credential_bytes cfg (header_or_empty r2 ''authorization'') = []) \<or>
             (credential_bytes cfg (header_or_empty r1 ''authorization'') \<noteq> [] \<and>
              credential_bytes cfg (header_or_empty r2 ''authorization'') \<noteq> [] \<and>
              take 16 (sha256hex X (credential_bytes cfg (header_or_empty r1 ''authorization'')))
                = take 16 (sha256hex X (credential_bytes cfg (header_or_empty r2 ''authorization''))))) \<and>
            (req_method r1 \<noteq> ''GET'' \<longrightarrow>
               sha256hex X (readBody X r1) = sha256hex X (readBody X r2))) \<and>
         bodyKey X (req_method r1) (readBody X r1)
           = (if req_method r1 = ''GET'' then [] else '':'' @ sha256hex X (readBody X r1))"
proof -
  let ?a1 = "header_or_empty r1 ''authorization''" and ?a2 = "header_or_empty r2 ''authorization''"
  let ?b1 = "readBody X r1" and ?b2 = "readBody X r2"
  let ?m1 = "req_method r1" and ?m2 = "req_method r2"
  have t1: "target_ok ?m1 (pathname r1) (search r1)" and t2: "target_ok ?m2 (pathname r2) (search r2)"
    using assms(2,3) by (simp_all add: request_ok_def)
  note au = authHash_equal_iff[OF assms(1), of cfg ?a1 ?a2]
  have fwd: "?m1 = ?m2 \<and> pathname r1 = pathname r2 \<and> search r1 = search r2 \<and>
         authHash X cfg ?a1 = authHash X cfg ?a2 \<and>
         (?m1 \<noteq> ''GET'' \<longrightarrow> sha256hex X ?b1 = sha256hex X ?b2)"
    if "request_key X cfg r1 = request_key X cfg r2"
    using assms(1) t1 t2 that unfolding request_key_def by (rule cacheKey_injective)
  have bwd: "request_key X cfg r1 = request_key X cfg r2"
    if "?m1 = ?m2 \<and> pathname r1 = pathname r2 \<and> search r1 = search r2 \<and>
         authHash X cfg ?a1 = authHash X cfg ?a2 \<and>
         (?m1 \<noteq> ''GET'' \<longrightarrow> sha256hex X ?b1 = sha256hex X ?b2)"
    using that by (auto simp: request_key_def cacheKey_def bodyKey_def hashBody_def)
  have bk: "bodyKey X ?m1 ?b1 = (if ?m1 = ''GET'' then [] else '':'' @ sha256hex X ?b1)"
    by (simp add: bodyKey_def hashBody_def)
  show ?thesis using fwd bwd bk au by blast
qed

theorem cache_key_derivation_witness:
  "hex_digest (extern_with sample_digest) \<and>
   request_ok (with_body ''POST'' ''Bearer a'' ''{\"n\":1}'') \<and>
   request_ok (with_body ''POST'' ''Bearer a'' ''{\"n\":2}'') \<and>
   request_ok (with_body ''POST'' ''Bearer b'' ''{\"n\":1}'') \<and>
   req_method (with_body ''POST'' ''Bearer a'' ''{\"n\":1}'') \<noteq> ''HEAD'' \<and>
   req_method (with_body ''POST'' ''Bearer a'' ''{\"n\":2}'') \<noteq> ''HEAD'' \<and>
   req_method (with_body ''POST'' ''Bearer b'' ''{\"n\":1}'') \<noteq> ''HEAD'' \<and>
   request_key (extern_with sample_digest) default_config (with_body ''POST'' ''Bearer a'' ''{\"n\":1}'')
     \<noteq> request_key (extern_with sample_digest) default_config (with_body ''POST'' ''Bearer a'' ''{\"n\":2}'') \<and>
   request_key (extern_with sample_digest) default_config (with_body ''POST'' ''Bearer a'' ''{\"n\":1}'')
     \<noteq> request_key (extern_with sample_digest) default_config (with_body ''POST'' ''Bearer b'' ''{\"n\":1}'') \<and>
   bodyKey (extern_with sample_digest) ''POST''
       (readBody (extern_with sample_digest) (with_body ''POST'' ''Bearer a'' ''{\"n\":1}''))
     = '':'' @ sample_digest ''{\"n\":1}''"
proof -
  let ?X = "extern_with sample_digest"
  let ?r1 = "with_body ''POST'' ''Bearer a'' ''{\"n\":1}''"
  let ?r2 = "with_body ''POST'' ''Bearer a'' ''{\"n\":2}''"
  let ?r3 = "with_body ''POST'' ''Bearer b'' ''{\"n\":1}''"
  have h: "hex_digest ?X" by (rule sample_digest_format)
  have o1: "request_ok ?r1" and o2: "request_ok ?r2" and o3: "request_ok ?r3"
    by (simp_all add: request_ok_def target_ok_def with_body_def)
  have m1: "req_method ?r1 \<noteq> ''HEAD''" and m2: "req_method ?r2 \<noteq> ''HEAD''"
    and m3: "req_method ?r3 \<noteq> ''HEAD''"
    by (simp_all add: with_body_def)
  have d: "sha256hex ?X = sample_digest" by (simp add: extern_with_def)
  have b1: "readBody ?X ?r1 = ''{\"n\":1}''" and b2: "readBody ?X ?r2 = ''{\"n\":2}''"
    by (simp_all add: readBody_def extern_with_def with_body_def decode_examples_def)
  have bodies: "sample_digest ''{\"n\":1}'' \<noteq> sample_digest ''{\"n\":2}''" by code_simp
  have creds: "take 16 (sample_digest (credential_bytes default_config
                                        (header_or_empty ?r1 ''authorization'')))
               \<noteq> take 16 (sample_digest (credential_bytes default_config
                                        (header_or_empty ?r3 ''authorization'')))"
    by code_simp
  have g1: "req_method ?r1 \<noteq> ''GET''" by (simp add: with_body_def)
  note T12 = cache_key_derivation [OF h o1 o2 m1 m2, of default_config]
  note T13 = cache_key_derivation [OF h o1 o3 m1 m3, of default_config]
  have k12: "request_key ?X default_config ?r1 \<noteq> request_key ?X default_config ?r2"
  proof
    assume "request_key ?X default_config ?r1 = request_key ?X default_config ?r2"
    then have "sha256hex ?X (readBody ?X ?r1) = sha256hex ?X (readBody ?X ?r2)"
      using T12 g1 by blast
    then show False using bodies unfolding d b1 b2 by simp
  qed
  have k13: "request_key ?X default_config ?r1 \<noteq> request_key ?X default_config ?r3"
  proof
    assume "request_key ?X default_config ?r1 = request_key ?X default_config ?r3"
    then have "take 16 (sha256hex ?X (credential_bytes default_config
                                        (header_or_empty ?r1 ''authorization'')))
               = take 16 (sha256hex ?X (credential_bytes default_config
                                        (header_or_empty ?r3 ''authorization'')))
               \<or> credential_bytes default_config (header_or_empty ?r1 ''authorization'') = []"
      using T13 by blast
    moreover have "credential_bytes default_config (header_or_empty ?r1 ''authorization'') \<noteq> []"
      by (simp add: credential_bytes_def header_or_empty_def header_def with_body_def)
    ultimately show False using creds unfolding d by simp
  qed
  have "bodyKey ?X (req_method ?r1) (readBody ?X ?r1)
          = (if req_method ?r1 = ''GET'' then [] else '':'' @ sha256hex ?X (readBody ?X ?r1))"
    using T12 by blast
  then have bk: "bodyKey ?X ''POST'' (readBody ?X ?r1) = '':'' @ sample_digest ''{\"n\":1}''"
    unfolding d b1 by (simp add: with_body_def)
  show ?thesis using h o1 o2 o3 m1 m2 m3 k12 k13 bk by blast
qed

text \<open>
  The claim as stated fails in three ways, for every digest function: two \<^verbatim>\<open>GET\<close>
  requests that differ in the body derive the same key; a request without a credential
  derives the key of a request whose credential is the configured upstream key; and two
  \<^verbatim>\<open>POST\<close> requests whose bodies are the single bytes FF and FE derive the same key,
  because both bodies decode to the text U+FFFD.
\<close>

theorem cache_key_counterexample:
  "\<forall>digest.
     body_bytes (with_body ''GET'' [] ''a'') \<noteq> body_bytes (with_body ''GET'' [] ''b'') \<and>
     request_key (extern_with digest) default_config (with_body ''GET'' [] ''a'')
       = request_key (extern_with digest) default_config (with_body ''GET'' [] ''b'') \<and>
     header (with_body ''POST'' [] ''{}'') ''authorization'' = None \<and>
     header (with_body ''POST'' ''sk-upstream'' ''{}'') ''authorization'' = Some ''sk-upstream'' \<and>
     request_key (extern_with digest) keyed_config (with_body ''POST'' [] ''{}'')
       = request_key (extern_with digest) keyed_config (with_body ''POST'' ''sk-upstream'' ''{}'') \<and>
     body_bytes (with_body ''POST'' [] [char_of (255 :: nat)])
       \<noteq> body_bytes (with_body ''POST'' [] [char_of (254 :: nat)]) \<and>
     request_key (extern_with digest) default_config (with_body ''POST'' [] [char_of (255 :: nat)])
       = request_key (extern_with digest) default_config (with_body ''POST'' [] [char_of (254 :: nat)])"
  by (simp add: request_key_def cacheKey_def authHash_def bodyKey_def hashBody_def hashString_def
        readBody_def header_or_empty_def header_def with_body_def extern_with_def
        decode_examples_def utf8_of_latin1_def keyed_config_def default_config_def)

section \<open>Properties of the request handler\<close>

lemma done_json_cache [simp]: "cache (snd (done_json st body hs calls S)) = cache S"
  by (simp add: done_json_def)

lemma internal_error_cache [simp]: "cache (snd (internal_error hs calls S)) = cache S"
  by (simp add: internal_error_def)

lemma handler_v1:
  assumes "prefix ''/v1/'' (pathname req)"
  shows "handler A X cfg clk up S req =
         proxy A X cfg clk up
           (S\<lparr>stats := (stats S)\<lparr>total_requests := total_requests (stats S) + 1,
                                   in_flight := in_flight (stats S) + 1\<rparr>\<rparr>) req"
proof -
  obtain rest where p: "pathname req = ''/v1/'' @ rest" using assms by (auto simp: prefix_def)
  show ?thesis by (simp add: handler_def Let_def p)
qed

lemma forward_bypass_cache:
  "bypass X req \<Longrightarrow> cache (snd (forward X cfg clk up hs S req)) = cache S"
  by (cases up) (simp_all add: forward_def shouldCache_def Let_def)

lemma forward_bypass_stores:
  "bypass X req \<Longrightarrow>
   cache_stores (stats (snd (forward X cfg clk up hs S req))) = cache_stores (stats S) \<and>
   cache_hits (stats (snd (forward X cfg clk up hs S req))) = cache_hits (stats S) \<and>
   cache_misses (stats (snd (forward X cfg clk up hs S req))) = cache_misses (stats S)"
  by (cases up) (simp_all add: forward_def shouldCache_def Let_def done_json_def internal_error_def)

lemma forward_calls: "upstream_calls (fst (forward X cfg clk up hs S req)) = 1"
  by (cases up) (simp_all add: forward_def Let_def done_json_def internal_error_def)

lemma proxy_bypass:
  assumes "bypass X req"
  shows "cache (snd (proxy A X cfg clk up S req)) = cache S \<and>
         cache_stores (stats (snd (proxy A X cfg clk up S req))) = cache_stores (stats S) \<and>
         cache_hits (stats (snd (proxy A X cfg clk up S req))) = cache_hits (stats S) \<and>
         cache_misses (stats (snd (proxy A X cfg clk up S req))) = cache_misses (stats S)"
  using assms
  by (simp add: proxy_def Let_def forward_bypass_cache forward_bypass_stores done_json_def)

lemma proxy_bypass_admitted:
  assumes "bypass X req"
    and "ok (fst (tryRemoveToken A (limiter S) (js_int A (t_admit clk)) (pickClientId X req)
                   (js_int A 1)))"
  shows "upstream_calls (fst (proxy A X cfg clk up S req)) = 1"
  using assms by (simp add: proxy_def Let_def forward_calls)

lemma handler_no_purge_route_cache:
  assumes "\<not> is_purge_route req" "\<not> prefix ''/v1/'' (pathname req)"
  shows "cache (snd (handler A X cfg clk up S req)) = cache S \<and>
         stats (snd (handler A X cfg clk up S req)) =
           (stats S)\<lparr>total_requests := total_requests (stats S) + 1\<rparr>"
  using assms by (auto simp: handler_def Let_def is_purge_route_def done_json_def)

text \<open>
  C10. For every request that carries the cache-invalidation signal (the header
  \<^verbatim>\<open>x-cache-invalidate\<close> with a value that \<^verbatim>\<open>parseBoolean\<close> accepts) and is not a call
  of the administrative purge route: the handler leaves the whole cache as it was. No
  lookup is made (the recency order and the hit and miss counters of the cache and of
  the server are unchanged), nothing is stored, and every entry, also the one under the
  key derived from the request, is untouched.
\<close>

theorem invalidate_signal_only_bypasses:
  assumes "cacheInvalidate req" and "\<not> is_purge_route req"
  shows "cache (snd (handler A X cfg clk up S req)) = cache S \<and>
         cache_stores (stats (snd (handler A X cfg clk up S req))) = cache_stores (stats S) \<and>
         cache_hits (stats (snd (handler A X cfg clk up S req))) = cache_hits (stats S) \<and>
         cache_misses (stats (snd (handler A X cfg clk up S req))) = cache_misses (stats S)"
proof (cases "prefix ''/v1/'' (pathname req)")
  case True
  have b: "bypass X req" using assms(1) by (simp add: bypass_def)
  let ?S = "S\<lparr>stats := (stats S)\<lparr>total_requests := total_requests (stats S) + 1,
                                   in_flight := in_flight (stats S) + 1\<rparr>\<rparr>"
  show ?thesis
    unfolding handler_v1[OF True] using proxy_bypass[OF b, of A cfg clk up ?S] by simp
next
  case False
  show ?thesis using handler_no_purge_route_cache[OF assms(2) False, of A X cfg clk up S] by simp
qed

lemma stream_true_bypass:
  assumes "isJson req" and "JSON_parse X (readBody X req) = Some (JObject kvs)"
    and "property (JObject kvs) ''stream'' = Some (JBool True)"
  shows "bypass X req"
  using assms by (simp add: bypass_def parsed_body_def safeJsonParse_def isLikelyStream_def)

text \<open>
  What the handler does keep of the streaming exclusion: a request that the limiter
  admits on a path under \<^verbatim>\<open>/v1/\<close>, whose content type contains
  \<^verbatim>\<open>application/json\<close> and whose body parses to a JSON object with the member
  \<^verbatim>\<open>stream\<close> equal to \<^verbatim>\<open>true\<close>, is forwarded to the upstream (one call of
  \<^verbatim>\<open>fetch\<close>), is not answered from the cache, and its response is not stored.
\<close>

lemma stream_true_json_forwarded:
  assumes "admitted A X clk S req" and "isJson req"
    and "JSON_parse X (readBody X req) = Some (JObject kvs)"
    and "property (JObject kvs) ''stream'' = Some (JBool True)"
  shows "upstream_calls (fst (handler A X cfg clk up S req)) = 1 \<and>
         cache (snd (handler A X cfg clk up S req)) = cache S \<and>
         cache_stores (stats (snd (handler A X cfg clk up S req))) = cache_stores (stats S) \<and>
         cache_hits (stats (snd (handler A X cfg clk up S req))) = cache_hits (stats S)"
proof -
  have p: "prefix ''/v1/'' (pathname req)" using assms(1) by (simp add: admitted_def)
  have b: "bypass X req" using assms(2,3,4) by (rule stream_true_bypass)
  let ?S = "S\<lparr>stats := (stats S)\<lparr>total_requests := total_requests (stats S) + 1,
                                   in_flight := in_flight (stats S) + 1\<rparr>\<rparr>"
  have a: "ok (fst (tryRemoveToken A (limiter ?S) (js_int A (t_admit clk)) (pickClientId X req)
                      (js_int A 1)))"
    using assms(1) by (simp add: admitted_def)
  show ?thesis
    unfolding handler_v1[OF p]
    using proxy_bypass[OF b, of A cfg clk up ?S] proxy_bypass_admitted[OF b a, of cfg up]
    by simp
qed

lemma get_c_miss_frame:
  assumes "fst (get_c c k now) = None"
  shows "stores (snd (get_c c k now)) = stores c \<and>
         (\<forall>k' n. cmap (snd (get_c c k now)) k' = Some n \<longrightarrow> cmap c k' = Some n) \<and>
         (\<forall>k'. present c k' now \<longrightarrow> cmap (snd (get_c c k now)) k' = cmap c k')"
  using assms
  by (auto simp: get_c_def Let_def detach_def present_def split: option.splits if_splits)

lemma forward_rejected:
  "status (fst (forward X cfg clk FetchRejected hs S req)) = 502 \<and>
   upstream_calls (fst (forward X cfg clk FetchRejected hs S req)) = 1 \<and>
   cache (snd (forward X cfg clk FetchRejected hs S req)) = cache S \<and>
   upstream_errors (stats (snd (forward X cfg clk FetchRejected hs S req)))
     = upstream_errors (stats S) + 1 \<and>
   cache_stores (stats (snd (forward X cfg clk FetchRejected hs S req))) = cache_stores (stats S)"
  by (simp add: forward_def done_json_def)

lemma proxy_to_forward:
  assumes "ok (fst (tryRemoveToken A (limiter S) (js_int A (t_admit clk)) (pickClientId X req)
                     (js_int A 1)))"
    and "bypass X req \<or> fst (get_c (cache S) (request_key X cfg req) (t_lookup clk)) = None"
  shows "\<exists>hs S1. proxy A X cfg clk up S req = forward X cfg clk up hs S1 req \<and>
           cache S1 = (if bypass X req then cache S
                       else snd (get_c (cache S) (request_key X cfg req) (t_lookup clk))) \<and>
           upstream_errors (stats S1) = upstream_errors (stats S) \<and>
           cache_stores (stats S1) = cache_stores (stats S)"
proof (cases "bypass X req")
  case True
  let ?rl = "tryRemoveToken A (limiter S) (js_int A (t_admit clk)) (pickClientId X req) (js_int A 1)"
  let ?S1 = "S\<lparr>limiter := snd ?rl\<rparr>"
  let ?hs1 = "set_header ''x-rate-remaining'' (js_String A (remaining (fst ?rl))) []"
  have "proxy A X cfg clk up S req =
        forward X cfg clk up
          (set_header ''x-cache'' (if cacheInvalidate req then ''bypass-invalidate'' else ''bypass'') ?hs1)
          (?S1\<lparr>stats := (stats ?S1)\<lparr>cache_bypass := cache_bypass (stats ?S1) + 1\<rparr>\<rparr>) req"
    using True assms(1) by (simp add: proxy_def Let_def)
  moreover have "cache (?S1\<lparr>stats := (stats ?S1)\<lparr>cache_bypass := cache_bypass (stats ?S1) + 1\<rparr>\<rparr>) = cache S"
    by simp
  ultimately show ?thesis using True
    by (intro exI conjI) (assumption, simp_all)
next
  case False
  then have miss: "fst (get_c (cache S) (request_key X cfg req) (t_lookup clk)) = None"
    using assms(2) by simp
  let ?rl = "tryRemoveToken A (limiter S) (js_int A (t_admit clk)) (pickClientId X req) (js_int A 1)"
  let ?S1 = "S\<lparr>limiter := snd ?rl\<rparr>"
  let ?hs1 = "set_header ''x-rate-remaining'' (js_String A (remaining (fst ?rl))) []"
  let ?S2 = "?S1\<lparr>cache := snd (get_c (cache ?S1) (request_key X cfg req) (t_lookup clk))\<rparr>"
  have "proxy A X cfg clk up S req =
        forward X cfg clk up (set_header ''x-cache'' ''miss'' ?hs1)
          (?S2\<lparr>stats := (stats ?S2)\<lparr>cache_misses := cache_misses (stats ?S2) + 1\<rparr>\<rparr>) req"
    using False assms(1) miss by (simp add: proxy_def Let_def)
  then show ?thesis using False
    by (intro exI conjI) (assumption, simp_all)
qed

text \<open>
  What the handler does keep of the gateway error: when \<^verbatim>\<open>fetch\<close> itself is rejected
  (a network error, or the timeout, before the response head arrives), the handler
  answers 502, counts exactly one upstream error, has called \<^verbatim>\<open>fetch\<close> once and not
  again, and stores nothing. The cache is as the lookup left it (untouched on a bypass).
\<close>

lemma fetch_rejected_is_gateway_error:
  assumes "reaches_fetch A X cfg clk S req"
  shows "(let r = fst (handler A X cfg clk FetchRejected S req);
              S' = snd (handler A X cfg clk FetchRejected S req)
          in status r = 502 \<and>
             upstream_errors (stats S') = upstream_errors (stats S) + 1 \<and>
             upstream_calls r = 1 \<and>
             cache_stores (stats S') = cache_stores (stats S) \<and>
             stores (cache S') = stores (cache S) \<and>
             cache S' = (if bypass X req then cache S
                         else snd (get_c (cache S) (request_key X cfg req) (t_lookup clk))) \<and>
             (\<forall>k n. cmap (cache S') k = Some n \<longrightarrow> cmap (cache S) k = Some n) \<and>
             (\<forall>k. present (cache S) k (t_lookup clk) \<longrightarrow> cmap (cache S') k = cmap (cache S) k))"
proof -
  have p: "prefix ''/v1/'' (pathname req)"
    using assms by (simp add: reaches_fetch_def admitted_def)
  let ?S = "S\<lparr>stats := (stats S)\<lparr>total_requests := total_requests (stats S) + 1,
                                   in_flight := in_flight (stats S) + 1\<rparr>\<rparr>"
  have a: "ok (fst (tryRemoveToken A (limiter S) (js_int A (t_admit clk)) (pickClientId X req)
                      (js_int A 1)))"
    using assms by (simp add: reaches_fetch_def admitted_def)
  have a': "ok (fst (tryRemoveToken A (limiter ?S) (js_int A (t_admit clk)) (pickClientId X req)
                       (js_int A 1)))"
    using a by simp
  have bm: "bypass X req \<or> fst (get_c (cache ?S) (request_key X cfg req) (t_lookup clk)) = None"
    using assms by (simp add: reaches_fetch_def)
  obtain hs S1 where pf: "proxy A X cfg clk FetchRejected ?S req = forward X cfg clk FetchRejected hs S1 req"
    and c1: "cache S1 = (if bypass X req then cache S
                       else snd (get_c (cache S) (request_key X cfg req) (t_lookup clk)))"
    and u1: "upstream_errors (stats S1) = upstream_errors (stats S)"
    and s1: "cache_stores (stats S1) = cache_stores (stats S)"
    using proxy_to_forward[OF a' bm, of FetchRejected] by auto
  note fw = forward_rejected[of X cfg clk hs S1 req]
  let ?S' = "snd (handler A X cfg clk FetchRejected S req)"
  have h: "handler A X cfg clk FetchRejected S req = forward X cfg clk FetchRejected hs S1 req"
    using handler_v1[OF p, of A X cfg clk FetchRejected S] pf by simp
  have cache': "cache ?S' = (if bypass X req then cache S
                       else snd (get_c (cache S) (request_key X cfg req) (t_lookup clk)))"
    using h fw c1 by simp
  have frame: "stores (cache ?S') = stores (cache S) \<and>
     (\<forall>k n. cmap (cache ?S') k = Some n \<longrightarrow> cmap (cache S) k = Some n) \<and>
     (\<forall>k. present (cache S) k (t_lookup clk) \<longrightarrow> cmap (cache ?S') k = cmap (cache S) k)"
  proof (cases "bypass X req")
    case True
    then show ?thesis using cache' by simp
  next
    case False
    then have miss: "fst (get_c (cache S) (request_key X cfg req) (t_lookup clk)) = None"
      using assms by (simp add: reaches_fetch_def)
    have eq: "cache ?S' = snd (get_c (cache S) (request_key X cfg req) (t_lookup clk))"
      using cache' False by simp
    show ?thesis unfolding eq by (rule get_c_miss_frame[OF miss])
  qed
  have st: "status (fst (handler A X cfg clk FetchRejected S req)) = 502"
    using h fw by simp
  have ue: "upstream_errors (stats ?S') = upstream_errors (stats S) + 1"
    using h fw u1 by simp
  have uc: "upstream_calls (fst (handler A X cfg clk FetchRejected S req)) = 1"
    using h fw by simp
  have cs: "cache_stores (stats ?S') = cache_stores (stats S)"
    using h fw s1 by simp
  show ?thesis
    unfolding Let_def using st ue uc cs cache' frame by blast
qed

lemmas handler_eval =
  handler_def proxy_def forward_def done_json_def internal_error_def
  pickClientId_def header_or_empty_def header_def trim_def is_space_def
  tryRemoveToken_def refill_def new_limiter_def exact_arith_def
  bypass_def cacheInvalidate_def parseBoolean_def toLowerCase_def parsed_body_def isJson_def
  safeJsonParse_def isLikelyStream_def sublist_code readBody_def decode_examples_def
  request_key_def cacheKey_def authHash_def bodyKey_def hashBody_def hashString_def
  utf8_of_latin1_def
  shouldCache_def respHeaders_def set_header_def set_headers_def
  fresh_server_def default_config_def extern_with_def parse_examples_def post_json_def at_time_def
  stream_1_request_def stream_true_request_def plain_request_def invalidate_request_def
  stream_text_request_def

text \<open>
  C4. The handler does not keep the claim for a streaming request whose content type
  is not JSON. The body \<^verbatim>\<open>{"stream":true}\<close> sent as \<^verbatim>\<open>text/plain\<close> declares
  streaming, but \<^verbatim>\<open>parsed\<close> is \<^verbatim>\<open>null\<close> for it (the body is parsed only when the
  content type contains \<^verbatim>\<open>application/json\<close>), so \<^verbatim>\<open>bypass\<close> is false: the request
  is looked up, its response is stored, and the second, identical request is answered
  from the cache without a call of the upstream.
\<close>

theorem stream_text_request_cached:
  "\<forall>digest render.
     JSON_parse (extern_with digest) (readBody (extern_with digest) stream_text_request)
       = Some (JObject [(''stream'', JBool True)]) \<and>
     isLikelyStream (JObject [(''stream'', JBool True)]) \<and>
     \<not> bypass (extern_with digest) stream_text_request \<and>
     upstream_calls (fst (handler (exact_arith render) (extern_with digest) default_config
        (at_time 0) (Responded 200 [] ''first'') fresh_server stream_text_request)) = 1 \<and>
     cache_stores (stats (after_stream_text digest render)) = 1 \<and>
     stores (cache (after_stream_text digest render)) = 1 \<and>
     upstream_calls (fst (handler (exact_arith render) (extern_with digest) default_config
        (at_time 1000) (Responded 200 [] ''second'') (after_stream_text digest render)
        stream_text_request)) = 0 \<and>
     out_body (fst (handler (exact_arith render) (extern_with digest) default_config
        (at_time 1000) (Responded 200 [] ''second'') (after_stream_text digest render)
        stream_text_request)) = ''first''"
  by (simp add: after_stream_text_def handler_eval cache_eval)

text \<open>
  C5. The handler does not keep the claim when the network error arrives after the
  response head, while \<^verbatim>\<open>arrayBuffer()\<close> reads the body: that call is outside the
  \<^verbatim>\<open>try\<close> around \<^verbatim>\<open>fetch\<close>, so its rejection is caught by the outer \<^verbatim>\<open>catch\<close> of
  the handler, which answers 500 with \<^verbatim>\<open>internal_error\<close> instead of the gateway error
  502 that a rejected \<^verbatim>\<open>fetch\<close> gets. The upstream was called once, the error is
  counted once and nothing is stored.
\<close>

theorem body_rejected_internal_error:
  "\<forall>digest render.
     reaches_fetch (exact_arith render) (extern_with digest) default_config (at_time 0)
       fresh_server plain_request \<and>
     status (fst (handler (exact_arith render) (extern_with digest) default_config (at_time 0)
        (BodyRejected 200 []) fresh_server plain_request)) = 500 \<and>
     out_body (fst (handler (exact_arith render) (extern_with digest) default_config (at_time 0)
        (BodyRejected 200 []) fresh_server plain_request)) = ''{\"error\":\"internal_error\"}'' \<and>
     upstream_calls (fst (handler (exact_arith render) (extern_with digest) default_config
        (at_time 0) (BodyRejected 200 []) fresh_server plain_request)) = 1 \<and>
     upstream_errors (stats (snd (handler (exact_arith render) (extern_with digest)
        default_config (at_time 0) (BodyRejected 200 []) fresh_server plain_request))) = 1 \<and>
     cache_stores (stats (snd (handler (exact_arith render) (extern_with digest)
        default_config (at_time 0) (BodyRejected 200 []) fresh_server plain_request))) = 0 \<and>
     status (fst (handler (exact_arith render) (extern_with digest) default_config (at_time 0)
        FetchRejected fresh_server plain_request)) = 502"
  by (simp add: reaches_fetch_def admitted_def handler_eval cache_eval)

theorem invalidate_signal_only_bypasses_witness:
  "\<forall>digest render.
     cacheInvalidate invalidate_request \<and> \<not> is_purge_route invalidate_request \<and>
     cache (snd (handler (exact_arith render) (extern_with digest) default_config (at_time 1000)
        (Responded 200 [] ''second'') (after_first digest render) invalidate_request))
       = cache (after_first digest render)"
proof (intro allI)
  fix digest render
  have h1: "cacheInvalidate invalidate_request" by (simp add: handler_eval)
  have h2: "\<not> is_purge_route invalidate_request" by (simp add: is_purge_route_def handler_eval)
  show "cacheInvalidate invalidate_request \<and> \<not> is_purge_route invalidate_request \<and>
     cache (snd (handler (exact_arith render) (extern_with digest) default_config (at_time 1000)
        (Responded 200 [] ''second'') (after_first digest render) invalidate_request))
       = cache (after_first digest render)"
    using h1 h2 invalidate_signal_only_bypasses [OF h1 h2] by blast
qed

end
